theory Spec2Isabelle
  imports Main
begin

section \<open>Smith-Waterman with affine gaps: the \<open>SWMatrix\<close> class of main.py and main_2.py\<close>

text \<open>
  The two scripts hold the same class \<open>SWMatrix\<close>; they differ only in the cross term of
  the two gap recurrences of \<open>fillMatrix\<close>. The embedding follows the Python text: the seven
  pandas frames are lists of rows, read and written by position (\<open>.iat\<close>), every lookup
  that can raise returns a sum, and the \<open>while\<close> loop of \<open>traceback\<close> is a partial
  function. The cells of the frames and the entries of the score table are 64-bit integers
  (numpy.int64): a sum of two of them wraps around, and a sum with a Python integer, as
  the two penalties are, raises OverflowError when that integer is no 64-bit value and
  wraps around otherwise.
\<close>

subsection \<open>Exceptions\<close>

datatype error = KeyError | IndexError | ValueError | OverflowError

definition bindE :: "error + 'a \<Rightarrow> ('a \<Rightarrow> error + 'b) \<Rightarrow> error + 'b" where
  "bindE r f = (case r of Inl e \<Rightarrow> Inl e | Inr v \<Rightarrow> f v)"

fun mapE :: "('a \<Rightarrow> error + 'b) \<Rightarrow> 'a list \<Rightarrow> error + 'b list" where
  "mapE f [] = Inr []"
| "mapE f (x # xs) = bindE (f x) (\<lambda>y. bindE (mapE f xs) (\<lambda>ys. Inr (y # ys)))"

subsection \<open>64-bit integers\<close>

text \<open>
  The values of numpy.int64 are the integers from \<open>-2^63\<close> up to \<open>2^63 - 1\<close>. \<open>add64\<close> is
  the sum of two numpy.int64 values, \<open>add64_py\<close> the sum of a numpy.int64 value and a Python
  integer.
\<close>

definition in_int64 :: "int \<Rightarrow> bool" where
  "in_int64 x \<longleftrightarrow> - (2 ^ 63) \<le> x \<and> x < 2 ^ 63"

definition wrap64 :: "int \<Rightarrow> int" where
  "wrap64 x = (x + 2 ^ 63) mod 2 ^ 64 - 2 ^ 63"

definition add64 :: "int \<Rightarrow> int \<Rightarrow> int" where
  "add64 a b = wrap64 (a + b)"

definition add64_py :: "int \<Rightarrow> int \<Rightarrow> error + int" where
  "add64_py a p = (if in_int64 p then Inr (wrap64 (a + p)) else Inl OverflowError)"

subsection \<open>Positional access\<close>

type_synonym 'a frame = "'a list list"

text \<open>
  A position on an axis of length \<open>n\<close>: Python and pandas accept \<open>-n \<le> k < n\<close>, a negative
  position counting from the end, and raise IndexError otherwise.
\<close>

definition py_pos :: "nat \<Rightarrow> int \<Rightarrow> error + nat" where
  "py_pos n k =
     (if 0 \<le> k \<and> k < int n then Inr (nat k)
      else if k < 0 \<and> - int n \<le> k then Inr (nat (int n + k))
      else Inl IndexError)"

text \<open>\<open>s[k]\<close> on a string or list.\<close>

definition py_index :: "'a list \<Rightarrow> int \<Rightarrow> error + 'a" where
  "py_index xs k = bindE (py_pos (length xs) k) (\<lambda>p. Inr (xs ! p))"

text \<open>\<open>df.iat[i, j]\<close> and \<open>df.iat[i, j] = v\<close>.\<close>

definition iat :: "'a frame \<Rightarrow> int \<Rightarrow> int \<Rightarrow> error + 'a" where
  "iat m i j =
     bindE (py_pos (length m) i) (\<lambda>r.
     bindE (py_pos (length (m ! r)) j) (\<lambda>c. Inr (m ! r ! c)))"

definition iat_set :: "'a frame \<Rightarrow> int \<Rightarrow> int \<Rightarrow> 'a \<Rightarrow> error + 'a frame" where
  "iat_set m i j v =
     bindE (py_pos (length m) i) (\<lambda>r.
     bindE (py_pos (length (m ! r)) j) (\<lambda>c. Inr (m[r := (m ! r)[c := v]])))"

text \<open>\<open>max(xs)\<close>: ValueError on the empty list.\<close>

fun py_max :: "int list \<Rightarrow> error + int" where
  "py_max [] = Inl ValueError"
| "py_max (x # xs) = Inr (fold max xs x)"

text \<open>\<open>xs.index(v)\<close>: the first position holding \<open>v\<close>, ValueError when there is none.\<close>

fun py_list_index :: "'a list \<Rightarrow> 'a \<Rightarrow> error + nat" where
  "py_list_index [] v = Inl ValueError"
| "py_list_index (x # xs) v =
     (if x = v then Inr 0 else bindE (py_list_index xs v) (\<lambda>k. Inr (Suc k)))"

text \<open>
  \<open>Series.max()\<close> and \<open>Series.argmax()\<close> (the position of the first maximum). On an empty
  series pandas gives NaN for the first and raises ValueError for the second; the integer
  model reports ValueError for both. The constructor never builds an empty frame.
\<close>

definition series_max :: "int list \<Rightarrow> error + int" where
  "series_max xs = py_max xs"

definition argmax :: "int list \<Rightarrow> error + nat" where
  "argmax xs = bindE (py_max xs) (\<lambda>m. py_list_index xs m)"

text \<open>\<open>df.max()\<close> (the maximum of each column) and \<open>df.max(axis=1)\<close> (of each row).\<close>

definition columns :: "'a frame \<Rightarrow> 'a frame" where
  "columns m = (case m of [] \<Rightarrow> [] | r # _ \<Rightarrow> map (\<lambda>c. map (\<lambda>row. row ! c) m) [0..<length r])"

definition frame_max :: "int frame \<Rightarrow> error + int list" where
  "frame_max m = mapE series_max (columns m)"

definition frame_max_axis1 :: "int frame \<Rightarrow> error + int list" where
  "frame_max_axis1 m = mapE series_max m"

subsection \<open>The class\<close>

text \<open>
  \<open>score\<close> is the table read from the score file; \<open>score.at[a, b]\<close> raises KeyError when
  a label is missing, which is the value None here; an entry is a numpy.int64 value.
  \<open>openGap\<close> and \<open>extGap\<close> are the fields \<open>self.o\<close> and \<open>self.e\<close>, Python integers of any
  size. The cells of the four score frames are numpy.int64 values.
\<close>

record SWMatrix =
  score :: "char \<Rightarrow> char \<Rightarrow> int option"
  openGap :: int
  extGap :: int
  seq1 :: string
  seq2 :: string
  F :: "int frame"
  M :: "int frame"
  Ix :: "int frame"
  Iy :: "int frame"
  TM :: "nat frame"
  TIx :: "nat frame"
  TIy :: "nat frame"

definition score_at :: "SWMatrix \<Rightarrow> char \<Rightarrow> char \<Rightarrow> error + int" where
  "score_at st a b = (case score st a b of None \<Rightarrow> Inl KeyError | Some v \<Rightarrow> Inr v)"

text \<open>\<open>pd.DataFrame(0, index = rows, columns = cols)\<close>.\<close>

definition zeros :: "'b list \<Rightarrow> 'c list \<Rightarrow> 'a::zero frame" where
  "zeros rows cols = replicate (length rows) (replicate (length cols) 0)"

text \<open>\<open>__init__\<close>: both sequences get a tab in front, so every frame has a row 0 and a column 0.\<close>

definition init :: "(char \<Rightarrow> char \<Rightarrow> int option) \<Rightarrow> string \<Rightarrow> string \<Rightarrow> int \<Rightarrow> int \<Rightarrow> SWMatrix" where
  "init sc s1 s2 og eg =
     (let q1 = CHR 0x09 # s1; q2 = CHR 0x09 # s2 in
      \<lparr> score = sc, openGap = og, extGap = eg, seq1 = q1, seq2 = q2,
        F = zeros q2 q1, M = zeros q2 q1, Ix = zeros q2 q1, Iy = zeros q2 q1,
        TM = zeros q2 q1, TIx = zeros q2 q1, TIy = zeros q2 q1 \<rparr>)"

subsection \<open>fillMatrix\<close>

text \<open>
  The two files: main.py adds the opening penalty to the orthogonal gap matrix
  (\<open>c = self.Iy.iat[i-1,j] + self.o\<close> for Ix, \<open>b = self.Ix.iat[i,j-1] + self.o\<close> for Iy),
  main_2.py puts the literal -1 in that place of the list.
\<close>

datatype variant = Main_py | Main_2_py

fun cross_term :: "variant \<Rightarrow> SWMatrix \<Rightarrow> int frame \<Rightarrow> int \<Rightarrow> int \<Rightarrow> error + int" where
  "cross_term Main_py st m i j = bindE (iat m i j) (\<lambda>v. add64_py v (openGap st))"
| "cross_term Main_2_py st m i j = Inr (- 1)"

text \<open>
  The three recurrences of the loop body; each returns the new state and its \<open>ret\<close>. The
  sums stand in the order of the Python text: every cell is read and added before the next
  one is read.
\<close>

definition fill_M :: "int \<Rightarrow> int \<Rightarrow> SWMatrix \<Rightarrow> error + SWMatrix \<times> int" where
  "fill_M i j st =
     bindE (py_index (seq1 st) j) (\<lambda>c1.
     bindE (py_index (seq2 st) i) (\<lambda>c2.
     bindE (score_at st c1 c2) (\<lambda>s.
     bindE (iat (M st) (i - 1) (j - 1)) (\<lambda>m.
     bindE (iat (Ix st) (i - 1) (j - 1)) (\<lambda>x.
     bindE (iat (Iy st) (i - 1) (j - 1)) (\<lambda>y.
     let a = add64 m s; b = add64 x s; c = add64 y s in
     bindE (py_max [a, b, c, 0]) (\<lambda>ret1.
     bindE (iat_set (M st) i j ret1) (\<lambda>M'.
     bindE (py_list_index [a, b, c, 0] ret1) (\<lambda>k.
     bindE (iat_set (TM st) i j k) (\<lambda>TM'.
     Inr (st\<lparr>M := M', TM := TM'\<rparr>, ret1)))))))))))"

definition fill_Ix :: "variant \<Rightarrow> int \<Rightarrow> int \<Rightarrow> SWMatrix \<Rightarrow> error + SWMatrix \<times> int" where
  "fill_Ix v i j st =
     bindE (iat (M st) (i - 1) j) (\<lambda>m.
     bindE (add64_py m (openGap st)) (\<lambda>a.
     bindE (iat (Ix st) (i - 1) j) (\<lambda>x.
     bindE (add64_py x (extGap st)) (\<lambda>b.
     bindE (cross_term v st (Iy st) (i - 1) j) (\<lambda>c.
     bindE (py_max [a, b, c, 0]) (\<lambda>ret2.
     bindE (iat_set (Ix st) i j ret2) (\<lambda>Ix'.
     bindE (py_list_index [a, b, c, 0] ret2) (\<lambda>k.
     bindE (iat_set (TIx st) i j k) (\<lambda>TIx'.
     Inr (st\<lparr>Ix := Ix', TIx := TIx'\<rparr>, ret2))))))))))"

text \<open>
  In the Iy recurrence main.py names the terms \<open>a, b, c\<close> and main_2.py \<open>a, -1, b\<close>; the
  list is M, Ix (or -1), Iy, 0 in both.
\<close>

definition fill_Iy :: "variant \<Rightarrow> int \<Rightarrow> int \<Rightarrow> SWMatrix \<Rightarrow> error + SWMatrix \<times> int" where
  "fill_Iy v i j st =
     bindE (iat (M st) i (j - 1)) (\<lambda>m.
     bindE (add64_py m (openGap st)) (\<lambda>a.
     bindE (cross_term v st (Ix st) i (j - 1)) (\<lambda>b.
     bindE (iat (Iy st) i (j - 1)) (\<lambda>y.
     bindE (add64_py y (extGap st)) (\<lambda>c.
     bindE (py_max [a, b, c, 0]) (\<lambda>ret3.
     bindE (iat_set (Iy st) i j ret3) (\<lambda>Iy'.
     bindE (py_list_index [a, b, c, 0] ret3) (\<lambda>k.
     bindE (iat_set (TIy st) i j k) (\<lambda>TIy'.
     Inr (st\<lparr>Iy := Iy', TIy := TIy'\<rparr>, ret3))))))))))"

definition fill_cell :: "variant \<Rightarrow> nat \<Rightarrow> nat \<Rightarrow> SWMatrix \<Rightarrow> error + SWMatrix" where
  "fill_cell v i j st =
     bindE (fill_M (int i) (int j) st) (\<lambda>(st1, ret1).
     bindE (fill_Ix v (int i) (int j) st1) (\<lambda>(st2, ret2).
     bindE (fill_Iy v (int i) (int j) st2) (\<lambda>(st3, ret3).
     bindE (py_max [ret1, ret2, ret3]) (\<lambda>best.
     bindE (iat_set (F st3) (int i) (int j) best) (\<lambda>F'.
     Inr (st3\<lparr>F := F'\<rparr>))))))"

text \<open>\<open>for j in range(1, len(self.seq1))\<close> and \<open>for i in range(1, len(self.seq2))\<close>.\<close>

fun fill_row :: "variant \<Rightarrow> nat \<Rightarrow> nat list \<Rightarrow> SWMatrix \<Rightarrow> error + SWMatrix" where
  "fill_row v i [] st = Inr st"
| "fill_row v i (j # js) st = bindE (fill_cell v i j st) (fill_row v i js)"

fun fill_rows :: "variant \<Rightarrow> nat list \<Rightarrow> SWMatrix \<Rightarrow> error + SWMatrix" where
  "fill_rows v [] st = Inr st"
| "fill_rows v (i # is) st =
     bindE (fill_row v i [1..<length (seq1 st)] st) (fill_rows v is)"

definition fillMatrix :: "variant \<Rightarrow> SWMatrix \<Rightarrow> error + SWMatrix" where
  "fillMatrix v st = fill_rows v [1..<length (seq2 st)] st"

subsection \<open>getMax and getMaxCoord\<close>

definition getMax :: "SWMatrix \<Rightarrow> error + int" where
  "getMax st = bindE (frame_max (F st)) series_max"

definition getMaxCoord :: "SWMatrix \<Rightarrow> error + nat \<times> nat" where
  "getMaxCoord st =
     bindE (frame_max_axis1 (F st)) (\<lambda>rowmax.
     bindE (argmax rowmax) (\<lambda>i.
     bindE (py_index (F st) (int i)) (\<lambda>row.
     bindE (argmax row) (\<lambda>j. Inr (i, j)))))"

subsection \<open>traceback\<close>

text \<open>The three lists \<open>self.matchStr1\<close>, \<open>self.matchStr2\<close>, \<open>self.matchLine\<close>; \<open>append\<close> adds at the end.\<close>

record lines =
  matchStr1 :: string
  matchStr2 :: string
  matchLine :: string

definition no_lines :: lines where
  "no_lines = \<lparr> matchStr1 = [], matchStr2 = [], matchLine = [] \<rparr>"

definition append1 :: "char \<Rightarrow> lines \<Rightarrow> lines" where
  "append1 c ls = ls\<lparr>matchStr1 := matchStr1 ls @ [c]\<rparr>"

definition append2 :: "char \<Rightarrow> lines \<Rightarrow> lines" where
  "append2 c ls = ls\<lparr>matchStr2 := matchStr2 ls @ [c]\<rparr>"

definition appendL :: "char \<Rightarrow> lines \<Rightarrow> lines" where
  "appendL c ls = ls\<lparr>matchLine := matchLine ls @ [c]\<rparr>"

definition reverse :: "lines \<Rightarrow> lines" where
  "reverse ls = \<lparr> matchStr1 = rev (matchStr1 ls), matchStr2 = rev (matchStr2 ls),
                 matchLine = rev (matchLine ls) \<rparr>"

text \<open>completeFront: the loop runs while \<open>i > 0 or j > 0\<close>, both counting down.\<close>

function completeFront_loop :: "SWMatrix \<Rightarrow> int \<Rightarrow> int \<Rightarrow> lines \<Rightarrow> error + lines" where
  "completeFront_loop st i j ls =
     (if i > 0 \<or> j > 0 then
        (case (if j > 0 then py_index (seq1 st) j else Inr CHR '' '') of
           Inl e \<Rightarrow> Inl e
         | Inr c1 \<Rightarrow>
            (case (if i > 0 then py_index (seq2 st) i else Inr CHR '' '') of
               Inl e \<Rightarrow> Inl e
             | Inr c2 \<Rightarrow>
                 completeFront_loop st (i - 1) (j - 1)
                   (append2 c2 (appendL CHR '' '' (append1 c1 ls)))))
      else Inr ls)"
  by pat_completeness auto
termination
  by (relation "measure (\<lambda>(st, i, j, ls). nat (max i j))") auto

declare completeFront_loop.simps [simp del]

definition completeFront :: "SWMatrix \<Rightarrow> int \<Rightarrow> int \<Rightarrow> lines \<Rightarrow> error + lines" where
  "completeFront st i j ls =
     completeFront_loop st i j (appendL CHR '' '' (append2 CHR ''(''  (append1 CHR ''('' ls)))"

text \<open>completeBack: the loop runs while \<open>i < len(self.seq2) or j < len(self.seq1)\<close>, both counting up.\<close>

function completeBack_loop :: "SWMatrix \<Rightarrow> int \<Rightarrow> int \<Rightarrow> lines \<Rightarrow> error + lines" where
  "completeBack_loop st i j ls =
     (if i < int (length (seq2 st)) \<or> j < int (length (seq1 st)) then
        (case (if j < int (length (seq1 st)) then py_index (seq1 st) j else Inr CHR '' '') of
           Inl e \<Rightarrow> Inl e
         | Inr c1 \<Rightarrow>
            (case (if i < int (length (seq2 st)) then py_index (seq2 st) i else Inr CHR '' '') of
               Inl e \<Rightarrow> Inl e
             | Inr c2 \<Rightarrow>
                 completeBack_loop st (i + 1) (j + 1)
                   (append2 c2 (appendL CHR '' '' (append1 c1 ls)))))
      else Inr ls)"
  by pat_completeness auto
termination
  by (relation "measure (\<lambda>(st, i, j, ls).
        nat (max (int (length (seq2 st)) - i) (int (length (seq1 st)) - j)))") auto

declare completeBack_loop.simps [simp del]

definition completeBack :: "SWMatrix \<Rightarrow> int \<Rightarrow> int \<Rightarrow> lines \<Rightarrow> error + lines" where
  "completeBack st i j ls =
     completeBack_loop st i j (appendL CHR '' '' (append2 CHR '')''  (append1 CHR '')'' ls)))"

text \<open>
  One pass through the body of the \<open>while\<close> loop of traceback. The match line is extended
  first, by comparing \<open>seq1[j]\<close> and \<open>seq2[i]\<close>, whatever the state is; then the branch of the
  state runs. A state other than 0, 1, 2 runs no branch and changes nothing but the match
  line. The value read at the end comes from the matrix of the state that was just left,
  at the new coordinate.
\<close>

definition traceback_body ::
  "SWMatrix \<Rightarrow> nat \<Rightarrow> int \<Rightarrow> int \<Rightarrow> int \<Rightarrow> lines \<Rightarrow> error + nat \<times> int \<times> int \<times> int \<times> lines" where
  "traceback_body st state i j currVal ls =
     bindE (py_index (seq1 st) j) (\<lambda>c1.
     bindE (py_index (seq2 st) i) (\<lambda>c2.
     let ls1 = appendL (if c1 = c2 then CHR ''|'' else CHR '' '') ls in
     if state = 0 then
       bindE (iat (TM st) i j) (\<lambda>nstate.
       bindE (iat (M st) (i - 1) (j - 1)) (\<lambda>v.
       Inr (nstate, i - 1, j - 1, v, append2 c2 (append1 c1 ls1))))
     else if state = 1 then
       bindE (iat (TIx st) i j) (\<lambda>nstate.
       bindE (iat (Ix st) (i - 1) j) (\<lambda>v.
       Inr (nstate, i - 1, j, v, append2 c2 (append1 CHR ''-'' ls1))))
     else if state = 2 then
       bindE (iat (TIy st) i j) (\<lambda>nstate.
       bindE (iat (Iy st) i (j - 1)) (\<lambda>v.
       Inr (nstate, i, j - 1, v, append2 CHR ''-'' (append1 c1 ls1))))
     else Inr (state, i, j, currVal, ls1)))"

text \<open>\<open>while currVal != 0 and state != 3\<close>: None is a loop that never ends.\<close>

partial_function (option) traceback_loop ::
  "SWMatrix \<Rightarrow> nat \<Rightarrow> int \<Rightarrow> int \<Rightarrow> int \<Rightarrow> lines \<Rightarrow> (error + int \<times> int \<times> lines) option" where
  "traceback_loop st state i j currVal ls =
     (if currVal \<noteq> 0 \<and> state \<noteq> 3 then
        (case traceback_body st state i j currVal ls of
           Inl e \<Rightarrow> Some (Inl e)
         | Inr (state', i', j', currVal', ls') \<Rightarrow> traceback_loop st state' i' j' currVal' ls')
      else Some (Inr (i, j, ls)))"

declare traceback_loop.simps [code]

text \<open>
  The first part of traceback, up to the end of the \<open>while\<close> loop: \<open>state = 0\<close>, the three
  lists emptied, \<open>i, j = self.getMaxCoord()\<close>, \<open>currVal = self.M.iat[i,j]\<close>, and the loop. It
  gives the coordinate where the loop stopped and the lists, still in the order of the
  appends (last column first).
\<close>

definition traceback_start :: "SWMatrix \<Rightarrow> (error + int \<times> int \<times> lines) option" where
  "traceback_start st =
     (let state = 0; ls = no_lines in
      case getMaxCoord st of
        Inl e \<Rightarrow> Some (Inl e)
      | Inr (i, j) \<Rightarrow>
         (case iat (M st) (int i) (int j) of
            Inl e \<Rightarrow> Some (Inl e)
          | Inr currVal \<Rightarrow> traceback_loop st state (int i) (int j) currVal ls))"

text \<open>
  The second part: completeFront at the coordinate where the loop stopped, the three
  reversals, and completeBack one past the coordinate of getMaxCoord.
\<close>

definition traceback_finish :: "SWMatrix \<Rightarrow> int \<times> int \<times> lines \<Rightarrow> error + lines" where
  "traceback_finish st r =
     (case r of (i, j, ls) \<Rightarrow>
        bindE (completeFront st i j ls) (\<lambda>ls1.
        let ls2 = reverse ls1 in
        bindE (getMaxCoord st) (\<lambda>(i, j).
        completeBack st (int i + 1) (int j + 1) ls2)))"

text \<open>
  traceback: \<open>i = x; j = y\<close> and then \<open>i, j = self.getMaxCoord()\<close>, which is the first step of
  \<open>traceback_start\<close>. The result is the three lists it leaves in the object.
\<close>

definition traceback :: "SWMatrix \<Rightarrow> int \<Rightarrow> int \<Rightarrow> (error + lines) option" where
  "traceback st x y =
     (let i = x; j = y in
      case traceback_start st of
        None \<Rightarrow> None
      | Some (Inl e) \<Rightarrow> Some (Inl e)
      | Some (Inr r) \<Rightarrow> Some (traceback_finish st r))"

text \<open>
  The aligned region of the display is what the loop wrote, read left to right: the part
  that traceback later puts between the two markers.
\<close>

definition aligned_region :: "SWMatrix \<Rightarrow> (error + lines) option" where
  "aligned_region st =
     (case traceback_start st of
        None \<Rightarrow> None
      | Some (Inl e) \<Rightarrow> Some (Inl e)
      | Some (Inr (i, j, ls)) \<Rightarrow> Some (Inr (reverse ls)))"

subsection \<open>runSW\<close>

text \<open>
  runSW without its input and output: build the object, \<open>m.fillMatrix()\<close>,
  \<open>m.traceback(0,0)\<close>, and what it prints after "Alignment Score:" and
  "Alignment Results:", that is \<open>m.getMax()\<close> and the three lists.
\<close>

definition runSW ::
  "variant \<Rightarrow> (char \<Rightarrow> char \<Rightarrow> int option) \<Rightarrow> string \<Rightarrow> string \<Rightarrow> int \<Rightarrow> int \<Rightarrow> (error + int \<times> lines) option" where
  "runSW v sc s1 s2 og eg =
     (case fillMatrix v (init sc s1 s2 og eg) of
        Inl e \<Rightarrow> Some (Inl e)
      | Inr m \<Rightarrow>
         (case traceback m 0 0 of
            None \<Rightarrow> None
          | Some (Inl e) \<Rightarrow> Some (Inl e)
          | Some (Inr ls) \<Rightarrow> Some (bindE (getMax m) (\<lambda>best. Inr (best, ls)))))"

text \<open>The aligned region of the same run.\<close>

definition runSW_aligned ::
  "variant \<Rightarrow> (char \<Rightarrow> char \<Rightarrow> int option) \<Rightarrow> string \<Rightarrow> string \<Rightarrow> int \<Rightarrow> int \<Rightarrow> (error + lines) option" where
  "runSW_aligned v sc s1 s2 og eg =
     (case fillMatrix v (init sc s1 s2 og eg) of
        Inl e \<Rightarrow> Some (Inl e)
      | Inr m \<Rightarrow> aligned_region m)"

text \<open>A score table defined on every pair of symbols: one value for equal symbols, one for the rest.\<close>

definition flat_score :: "int \<Rightarrow> int \<Rightarrow> char \<Rightarrow> char \<Rightarrow> int option" where
  "flat_score same other a b = Some (if a = b then same else other)"

text \<open>The best score of a run: fillMatrix on a fresh object, then getMax.\<close>

definition best_score ::
  "variant \<Rightarrow> (char \<Rightarrow> char \<Rightarrow> int option) \<Rightarrow> string \<Rightarrow> string \<Rightarrow> int \<Rightarrow> int \<Rightarrow> error + int" where
  "best_score v sc s1 s2 og eg = bindE (fillMatrix v (init sc s1 s2 og eg)) getMax"

section \<open>What the claims are stated with\<close>

subsection \<open>Frames without exceptions\<close>

text \<open>
  Inside a frame of \<open>n\<close> rows and \<open>m\<close> columns (\<open>rect\<close>) the positional write is a nested
  list update (\<open>put\<close>), and \<open>xs.index(v)\<close> of a value that occurs in \<open>xs\<close> is \<open>pos_of xs v\<close>.
\<close>

definition put :: "'a frame \<Rightarrow> nat \<Rightarrow> nat \<Rightarrow> 'a \<Rightarrow> 'a frame" where
  "put fr i j v = fr[i := (fr ! i)[j := v]]"

definition rect :: "nat \<Rightarrow> nat \<Rightarrow> 'a frame \<Rightarrow> bool" where
  "rect n m fr \<longleftrightarrow> length fr = n \<and> (\<forall>i<n. length (fr ! i) = m)"

fun pos_of :: "'a list \<Rightarrow> 'a \<Rightarrow> nat" where
  "pos_of [] v = 0"
| "pos_of (x # xs) v = (if x = v then 0 else Suc (pos_of xs v))"

text \<open>
  \<open>k\<close> is the first position of \<open>ts\<close> that holds the maximum of \<open>ts\<close>: the tie-break of the
  specification, "the first term in the listed left-to-right order that attains the
  maximum wins".
\<close>

definition first_at :: "int list \<Rightarrow> nat \<Rightarrow> bool" where
  "first_at ts k \<longleftrightarrow> k < length ts \<and> ts ! k = Max (set ts) \<and> (\<forall>k'<k. ts ! k' \<noteq> Max (set ts))"

subsection \<open>The recurrences, as the specification lists them\<close>

text \<open>
  The candidate terms of a cell \<open>(i, j)\<close> with \<open>i, j \<ge> 1\<close>, in the order of section 4.1 of
  the specification, read from a state \<open>st\<close>: for M the three matrices at \<open>(i-1, j-1)\<close> plus
  the similarity \<open>s\<close>, then the literal zero; for Ix the cell above; for Iy the cell to the
  left. \<open>cross\<close> is the policy of the orthogonal term: the other gap matrix plus the opening
  penalty in main.py, the constant -1 in main_2.py. Every sum is the 64-bit sum the program
  computes.
\<close>

fun cross :: "variant \<Rightarrow> int \<Rightarrow> int \<Rightarrow> int" where
  "cross Main_py x og = wrap64 (x + og)"
| "cross Main_2_py x og = - 1"

definition terms_M :: "SWMatrix \<Rightarrow> nat \<Rightarrow> nat \<Rightarrow> int \<Rightarrow> int list" where
  "terms_M st i j s =
     [add64 (M st ! (i - 1) ! (j - 1)) s, add64 (Ix st ! (i - 1) ! (j - 1)) s,
      add64 (Iy st ! (i - 1) ! (j - 1)) s, 0]"

definition terms_Ix :: "variant \<Rightarrow> SWMatrix \<Rightarrow> nat \<Rightarrow> nat \<Rightarrow> int list" where
  "terms_Ix v st i j =
     [wrap64 (M st ! (i - 1) ! j + openGap st), wrap64 (Ix st ! (i - 1) ! j + extGap st),
      cross v (Iy st ! (i - 1) ! j) (openGap st), 0]"

definition terms_Iy :: "variant \<Rightarrow> SWMatrix \<Rightarrow> nat \<Rightarrow> nat \<Rightarrow> int list" where
  "terms_Iy v st i j =
     [wrap64 (M st ! i ! (j - 1) + openGap st), cross v (Ix st ! i ! (j - 1)) (openGap st),
      wrap64 (Iy st ! i ! (j - 1) + extGap st), 0]"

subsection \<open>The state of an object between two passes of the loop body\<close>

text \<open>All seven frames have one row per symbol of \<open>seq2\<close> and one column per symbol of \<open>seq1\<close>.\<close>

definition wf :: "SWMatrix \<Rightarrow> bool" where
  "wf st \<longleftrightarrow>
     0 < length (seq2 st) \<and> 0 < length (seq1 st) \<and>
     rect (length (seq2 st)) (length (seq1 st)) (F st) \<and>
     rect (length (seq2 st)) (length (seq1 st)) (M st) \<and>
     rect (length (seq2 st)) (length (seq1 st)) (Ix st) \<and>
     rect (length (seq2 st)) (length (seq1 st)) (Iy st) \<and>
     rect (length (seq2 st)) (length (seq1 st)) (TM st) \<and>
     rect (length (seq2 st)) (length (seq1 st)) (TIx st) \<and>
     rect (length (seq2 st)) (length (seq1 st)) (TIy st)"

text \<open>What one pass of the loop body of fillMatrix writes, when the similarity is \<open>s\<close>.\<close>

definition cell_upd :: "variant \<Rightarrow> int \<Rightarrow> nat \<Rightarrow> nat \<Rightarrow> SWMatrix \<Rightarrow> SWMatrix" where
  "cell_upd v s i j st =
     st\<lparr> M := put (M st) i j (Max (set (terms_M st i j s))),
         TM := put (TM st) i j (pos_of (terms_M st i j s) (Max (set (terms_M st i j s)))),
         Ix := put (Ix st) i j (Max (set (terms_Ix v st i j))),
         TIx := put (TIx st) i j (pos_of (terms_Ix v st i j) (Max (set (terms_Ix v st i j)))),
         Iy := put (Iy st) i j (Max (set (terms_Iy v st i j))),
         TIy := put (TIy st) i j (pos_of (terms_Iy v st i j) (Max (set (terms_Iy v st i j)))),
         F := put (F st) i j
                (Max (set [Max (set (terms_M st i j s)), Max (set (terms_Ix v st i j)),
                           Max (set (terms_Iy v st i j))])) \<rparr>"

text \<open>A cell nothing has been written to, and a cell that satisfies the recurrences on \<open>st\<close>.\<close>

definition zero_at :: "SWMatrix \<Rightarrow> nat \<Rightarrow> nat \<Rightarrow> bool" where
  "zero_at st i j \<longleftrightarrow>
     F st ! i ! j = 0 \<and> M st ! i ! j = 0 \<and> Ix st ! i ! j = 0 \<and> Iy st ! i ! j = 0 \<and>
     TM st ! i ! j = 0 \<and> TIx st ! i ! j = 0 \<and> TIy st ! i ! j = 0"

definition cell_ok :: "variant \<Rightarrow> SWMatrix \<Rightarrow> nat \<Rightarrow> nat \<Rightarrow> bool" where
  "cell_ok v st i j \<longleftrightarrow>
     (\<exists>s. score st (seq1 st ! j) (seq2 st ! i) = Some s \<and>
        M st ! i ! j = Max (set (terms_M st i j s)) \<and>
        TM st ! i ! j = pos_of (terms_M st i j s) (Max (set (terms_M st i j s)))) \<and>
     Ix st ! i ! j = Max (set (terms_Ix v st i j)) \<and>
     TIx st ! i ! j = pos_of (terms_Ix v st i j) (Max (set (terms_Ix v st i j))) \<and>
     Iy st ! i ! j = Max (set (terms_Iy v st i j)) \<and>
     TIy st ! i ! j = pos_of (terms_Iy v st i j) (Max (set (terms_Iy v st i j))) \<and>
     F st ! i ! j = Max (set [M st ! i ! j, Ix st ! i ! j, Iy st ! i ! j])"

text \<open>
  The cells the two loops have passed when they stand before cell \<open>(i, j)\<close>, and the
  invariant of the loops: passed cells satisfy the recurrences, all others are untouched.
\<close>

definition visited :: "nat \<Rightarrow> nat \<Rightarrow> nat \<Rightarrow> nat \<Rightarrow> bool" where
  "visited i j a b \<longleftrightarrow> 1 \<le> a \<and> 1 \<le> b \<and> (a < i \<or> (a = i \<and> b < j))"

definition filled_upto :: "variant \<Rightarrow> nat \<Rightarrow> nat \<Rightarrow> SWMatrix \<Rightarrow> bool" where
  "filled_upto v i j st \<longleftrightarrow>
     wf st \<and>
     (\<forall>a b. a < length (seq2 st) \<longrightarrow> b < length (seq1 st) \<longrightarrow>
        (if visited i j a b then cell_ok v st a b else zero_at st a b))"

definition filled :: "variant \<Rightarrow> SWMatrix \<Rightarrow> bool" where
  "filled v st \<longleftrightarrow>
     wf st \<and>
     (\<forall>a b. a < length (seq2 st) \<longrightarrow> b < length (seq1 st) \<longrightarrow>
        (if 1 \<le> a \<and> 1 \<le> b then cell_ok v st a b else zero_at st a b))"

text \<open>
  The fields fillMatrix never writes; and an object on which no pass of the loop body
  raises: the score table has an entry for every pair it looks up and both penalties are
  64-bit values.
\<close>

definition same_input :: "SWMatrix \<Rightarrow> SWMatrix \<Rightarrow> bool" where
  "same_input st st' \<longleftrightarrow>
     score st' = score st \<and> openGap st' = openGap st \<and> extGap st' = extGap st \<and>
     seq1 st' = seq1 st \<and> seq2 st' = seq2 st"

definition complete :: "SWMatrix \<Rightarrow> bool" where
  "complete st \<longleftrightarrow>
     in_int64 (openGap st) \<and> in_int64 (extGap st) \<and>
     (\<forall>a b. 1 \<le> a \<longrightarrow> a < length (seq2 st) \<longrightarrow> 1 \<le> b \<longrightarrow> b < length (seq1 st) \<longrightarrow>
        score st (seq1 st ! b) (seq2 st ! a) \<noteq> None)"

text \<open>The global maximum of a frame, and the maximum of its row \<open>a\<close>.\<close>

definition global_max :: "int frame \<Rightarrow> int" where
  "global_max fr = Max (set (concat fr))"

definition row_max :: "int frame \<Rightarrow> nat \<Rightarrow> int" where
  "row_max fr a = Max (set (fr ! a))"

text \<open>Both context loops only append to the three lists.\<close>

definition extends :: "lines \<Rightarrow> lines \<Rightarrow> bool" where
  "extends ls ls' \<longleftrightarrow>
     (\<exists>x y z. matchStr1 ls' = matchStr1 ls @ x \<and> matchStr2 ls' = matchStr2 ls @ y \<and>
        matchLine ls' = matchLine ls @ z)"

text \<open>The display \<open>L\<close> holds the region \<open>A\<close> between its two markers, on all three lines.\<close>

definition framed :: "lines \<Rightarrow> lines \<Rightarrow> bool" where
  "framed A L \<longleftrightarrow>
     (\<exists>f1 b1 f2 b2 fl bl.
        matchStr1 L = f1 @ ''('' @ matchStr1 A @ '')'' @ b1 \<and>
        matchStr2 L = f2 @ ''('' @ matchStr2 A @ '')'' @ b2 \<and>
        matchLine L = fl @ '' '' @ matchLine A @ '' '' @ bl)"

text \<open>
  The score table of a self-alignment: one strictly positive value for every symbol
  paired with itself, small enough for the score of the whole sequence to be a 64-bit
  value, and a 64-bit entry of at most 0 for every other pair of symbols.
\<close>

definition self_scores :: "(char \<Rightarrow> char \<Rightarrow> int option) \<Rightarrow> string \<Rightarrow> int \<Rightarrow> bool" where
  "self_scores sc s ms \<longleftrightarrow>
     0 < ms \<and> int (length s) * ms < 2 ^ 63 \<and> (\<forall>a\<in>set s. sc a a = Some ms) \<and>
     (\<forall>a\<in>set s. \<forall>b\<in>set s. a \<noteq> b \<longrightarrow>
        (\<exists>w. sc a b = Some w \<and> - (2 ^ 63) \<le> w \<and> w \<le> 0))"

section \<open>Lemmas\<close>

subsection \<open>Exceptions, positions and lists\<close>

lemma bindE_Inr [simp]: "bindE (Inr v) f = f v"
  by (simp add: bindE_def)

lemma bindE_Inl [simp]: "bindE (Inl e) f = Inl e"
  by (simp add: bindE_def)

lemma bindE_eq_Inr: "bindE r f = Inr y \<longleftrightarrow> (\<exists>v. r = Inr v \<and> f v = Inr y)"
  by (cases r) simp_all

lemma py_pos_nat: "k < n \<Longrightarrow> py_pos n (int k) = Inr k"
  by (simp add: py_pos_def)

lemma py_index_nat: "k < length xs \<Longrightarrow> py_index xs (int k) = Inr (xs ! k)"
  by (simp add: py_index_def py_pos_nat)

lemma iat_nat: "rect n m fr \<Longrightarrow> i < n \<Longrightarrow> j < m \<Longrightarrow> iat fr (int i) (int j) = Inr (fr ! i ! j)"
  by (simp add: iat_def rect_def py_pos_nat)

lemma iat_set_nat:
  "rect n m fr \<Longrightarrow> i < n \<Longrightarrow> j < m \<Longrightarrow> iat_set fr (int i) (int j) v = Inr (put fr i j v)"
  by (simp add: iat_set_def rect_def py_pos_nat put_def)

lemma rect_put: "rect n m fr \<Longrightarrow> rect n m (put fr i j v)"
  by (cases "i < n") (auto simp: rect_def put_def nth_list_update)

lemma nth_put:
  "rect n m fr \<Longrightarrow> i < n \<Longrightarrow> j < m \<Longrightarrow>
   put fr i j v ! a ! b = (if a = i \<and> b = j then v else fr ! a ! b)"
  by (auto simp: rect_def put_def nth_list_update)

lemma py_max_Cons: "py_max (x # xs) = Inr (Max (set (x # xs)))"
  unfolding py_max.simps Max.set_eq_fold ..

lemma py_max_Max: "xs \<noteq> [] \<Longrightarrow> py_max xs = Inr (Max (set xs))"
  by (cases xs) (simp, simp only: py_max_Cons)

lemma py_list_index_pos: "v \<in> set xs \<Longrightarrow> py_list_index xs v = Inr (pos_of xs v)"
  by (induction xs) auto

lemma pos_of_less: "v \<in> set xs \<Longrightarrow> pos_of xs v < length xs"
  by (induction xs) auto

lemma nth_pos_of: "v \<in> set xs \<Longrightarrow> xs ! pos_of xs v = v"
  by (induction xs) auto

lemma pos_of_first: "k < pos_of xs v \<Longrightarrow> xs ! k \<noteq> v"
proof (induction xs arbitrary: k)
  case Nil
  then show ?case by simp
next
  case (Cons x xs)
  then show ?case by (cases k) (auto split: if_splits)
qed

lemma pos_of_le_length: "pos_of xs v \<le> length xs"
  by (induction xs) auto

subsection \<open>One pass of the loop body of fillMatrix\<close>

lemma Max_in_list: "xs \<noteq> [] \<Longrightarrow> Max (set xs) \<in> set xs"
  by (rule Max_in) simp_all

lemma index_of_max:
  "xs \<noteq> [] \<Longrightarrow> py_list_index xs (Max (set xs)) = Inr (pos_of xs (Max (set xs)))"
  by (rule py_list_index_pos) (rule Max_in_list)

lemma wrap64_id: "in_int64 x \<Longrightarrow> wrap64 x = x"
  by (simp add: wrap64_def in_int64_def)

lemma add64_py_in: "in_int64 p \<Longrightarrow> add64_py a p = Inr (wrap64 (a + p))"
  by (simp add: add64_py_def)

lemma add64_py_out: "\<not> in_int64 p \<Longrightarrow> add64_py a p = Inl OverflowError"
  by (simp add: add64_py_def)

lemma cross_term_wf:
  "rect n m fr \<Longrightarrow> i < n \<Longrightarrow> j < m \<Longrightarrow> in_int64 (openGap st) \<Longrightarrow>
   cross_term v st fr (int i) (int j) = Inr (cross v (fr ! i ! j) (openGap st))"
  by (cases v) (simp_all add: iat_nat add64_py_in)

lemma fill_M_wf:
  assumes "wf st" "Suc i < length (seq2 st)" "Suc j < length (seq1 st)"
  shows "fill_M (int (Suc i)) (int (Suc j)) st =
     (case score st (seq1 st ! Suc j) (seq2 st ! Suc i) of
        None \<Rightarrow> Inl KeyError
      | Some s \<Rightarrow>
          Inr (st\<lparr> M := put (M st) (Suc i) (Suc j) (Max (set (terms_M st (Suc i) (Suc j) s))),
                   TM := put (TM st) (Suc i) (Suc j)
                     (pos_of (terms_M st (Suc i) (Suc j) s) (Max (set (terms_M st (Suc i) (Suc j) s)))) \<rparr>,
               Max (set (terms_M st (Suc i) (Suc j) s))))"
proof -
  let ?n = "length (seq2 st)" and ?m = "length (seq1 st)"
  have e: "int (Suc i) - 1 = int i" "int (Suc j) - 1 = int j" by simp_all
  have r: "rect ?n ?m (M st)" "rect ?n ?m (Ix st)" "rect ?n ?m (Iy st)" "rect ?n ?m (TM st)"
    using assms(1) by (simp_all add: wf_def)
  have lt: "i < ?n" "j < ?m" using assms by simp_all
  have rd: "iat (M st) (int i) (int j) = Inr (M st ! i ! j)"
    "iat (Ix st) (int i) (int j) = Inr (Ix st ! i ! j)"
    "iat (Iy st) (int i) (int j) = Inr (Iy st ! i ! j)"
    using r lt by (simp_all add: iat_nat)
  have wr: "\<And>x. iat_set (M st) (int (Suc i)) (int (Suc j)) x = Inr (put (M st) (Suc i) (Suc j) x)"
    "\<And>x. iat_set (TM st) (int (Suc i)) (int (Suc j)) x = Inr (put (TM st) (Suc i) (Suc j) x)"
    by (rule iat_set_nat[OF r(1) assms(2,3)], rule iat_set_nat[OF r(4) assms(2,3)])
  have ix: "py_index (seq1 st) (int (Suc j)) = Inr (seq1 st ! Suc j)"
    "py_index (seq2 st) (int (Suc i)) = Inr (seq2 st ! Suc i)"
    by (rule py_index_nat[OF assms(3)], rule py_index_nat[OF assms(2)])
  show ?thesis
    unfolding fill_M_def e rd wr ix bindE_Inr score_at_def Let_def
    by (cases "score st (seq1 st ! Suc j) (seq2 st ! Suc i)")
       (simp_all only: option.case bindE_Inl bindE_Inr py_max_Cons index_of_max[OF list.distinct(2)]
          wr terms_M_def diff_Suc_1)
qed

lemma fill_Ix_wf:
  assumes "wf st" "Suc i < length (seq2 st)" "Suc j < length (seq1 st)"
    and og: "in_int64 (openGap st)" and eg: "in_int64 (extGap st)"
  shows "fill_Ix v (int (Suc i)) (int (Suc j)) st =
     Inr (st\<lparr> Ix := put (Ix st) (Suc i) (Suc j) (Max (set (terms_Ix v st (Suc i) (Suc j)))),
              TIx := put (TIx st) (Suc i) (Suc j)
                (pos_of (terms_Ix v st (Suc i) (Suc j)) (Max (set (terms_Ix v st (Suc i) (Suc j))))) \<rparr>,
          Max (set (terms_Ix v st (Suc i) (Suc j))))"
proof -
  let ?n = "length (seq2 st)" and ?m = "length (seq1 st)"
  have e: "int (Suc i) - 1 = int i" by simp
  have r: "rect ?n ?m (M st)" "rect ?n ?m (Ix st)" "rect ?n ?m (Iy st)" "rect ?n ?m (TIx st)"
    using assms(1) by (simp_all add: wf_def)
  have lt: "i < ?n" using assms by simp
  have rd: "iat (M st) (int i) (int (Suc j)) = Inr (M st ! i ! Suc j)"
    "iat (Ix st) (int i) (int (Suc j)) = Inr (Ix st ! i ! Suc j)"
    "cross_term v st (Iy st) (int i) (int (Suc j)) = Inr (cross v (Iy st ! i ! Suc j) (openGap st))"
    by (rule iat_nat[OF r(1) lt assms(3)], rule iat_nat[OF r(2) lt assms(3)],
        rule cross_term_wf[OF r(3) lt assms(3) og])
  have ad: "\<And>x. add64_py x (openGap st) = Inr (wrap64 (x + openGap st))"
    "\<And>x. add64_py x (extGap st) = Inr (wrap64 (x + extGap st))"
    by (rule add64_py_in[OF og], rule add64_py_in[OF eg])
  have wr: "\<And>x. iat_set (Ix st) (int (Suc i)) (int (Suc j)) x = Inr (put (Ix st) (Suc i) (Suc j) x)"
    "\<And>x. iat_set (TIx st) (int (Suc i)) (int (Suc j)) x = Inr (put (TIx st) (Suc i) (Suc j) x)"
    by (rule iat_set_nat[OF r(2) assms(2,3)], rule iat_set_nat[OF r(4) assms(2,3)])
  show ?thesis
    unfolding fill_Ix_def e rd ad wr bindE_Inr Let_def
    by (simp only: bindE_Inr py_max_Cons index_of_max[OF list.distinct(2)] wr terms_Ix_def
          diff_Suc_1 rd ad)
qed

lemma fill_Ix_overflow:
  assumes "wf st" "Suc i < length (seq2 st)" "Suc j < length (seq1 st)"
    and "\<not> (in_int64 (openGap st) \<and> in_int64 (extGap st))"
  shows "fill_Ix v (int (Suc i)) (int (Suc j)) st = Inl OverflowError"
proof -
  let ?n = "length (seq2 st)" and ?m = "length (seq1 st)"
  have e: "int (Suc i) - 1 = int i" by simp
  have r: "rect ?n ?m (M st)" "rect ?n ?m (Ix st)"
    using assms(1) by (simp_all add: wf_def)
  have lt: "i < ?n" using assms by simp
  have rd: "iat (M st) (int i) (int (Suc j)) = Inr (M st ! i ! Suc j)"
    "iat (Ix st) (int i) (int (Suc j)) = Inr (Ix st ! i ! Suc j)"
    by (rule iat_nat[OF r(1) lt assms(3)], rule iat_nat[OF r(2) lt assms(3)])
  show ?thesis
  proof (cases "in_int64 (openGap st)")
    case False
    show ?thesis
      unfolding fill_Ix_def e rd bindE_Inr add64_py_out[OF False] bindE_Inl ..
  next
    case True
    then have eg: "\<not> in_int64 (extGap st)" using assms(4) by simp
    show ?thesis
      unfolding fill_Ix_def e rd bindE_Inr add64_py_in[OF True] add64_py_out[OF eg] bindE_Inl ..
  qed
qed

lemma fill_Iy_wf:
  assumes "wf st" "Suc i < length (seq2 st)" "Suc j < length (seq1 st)"
    and og: "in_int64 (openGap st)" and eg: "in_int64 (extGap st)"
  shows "fill_Iy v (int (Suc i)) (int (Suc j)) st =
     Inr (st\<lparr> Iy := put (Iy st) (Suc i) (Suc j) (Max (set (terms_Iy v st (Suc i) (Suc j)))),
              TIy := put (TIy st) (Suc i) (Suc j)
                (pos_of (terms_Iy v st (Suc i) (Suc j)) (Max (set (terms_Iy v st (Suc i) (Suc j))))) \<rparr>,
          Max (set (terms_Iy v st (Suc i) (Suc j))))"
proof -
  let ?n = "length (seq2 st)" and ?m = "length (seq1 st)"
  have e: "int (Suc j) - 1 = int j" by simp
  have r: "rect ?n ?m (M st)" "rect ?n ?m (Ix st)" "rect ?n ?m (Iy st)" "rect ?n ?m (TIy st)"
    using assms(1) by (simp_all add: wf_def)
  have lt: "j < ?m" using assms by simp
  have rd: "iat (M st) (int (Suc i)) (int j) = Inr (M st ! Suc i ! j)"
    "iat (Iy st) (int (Suc i)) (int j) = Inr (Iy st ! Suc i ! j)"
    "cross_term v st (Ix st) (int (Suc i)) (int j) = Inr (cross v (Ix st ! Suc i ! j) (openGap st))"
    by (rule iat_nat[OF r(1) assms(2) lt], rule iat_nat[OF r(3) assms(2) lt],
        rule cross_term_wf[OF r(2) assms(2) lt og])
  have ad: "\<And>x. add64_py x (openGap st) = Inr (wrap64 (x + openGap st))"
    "\<And>x. add64_py x (extGap st) = Inr (wrap64 (x + extGap st))"
    by (rule add64_py_in[OF og], rule add64_py_in[OF eg])
  have wr: "\<And>x. iat_set (Iy st) (int (Suc i)) (int (Suc j)) x = Inr (put (Iy st) (Suc i) (Suc j) x)"
    "\<And>x. iat_set (TIy st) (int (Suc i)) (int (Suc j)) x = Inr (put (TIy st) (Suc i) (Suc j) x)"
    by (rule iat_set_nat[OF r(3) assms(2,3)], rule iat_set_nat[OF r(4) assms(2,3)])
  show ?thesis
    unfolding fill_Iy_def e rd ad wr bindE_Inr Let_def
    by (simp only: bindE_Inr py_max_Cons index_of_max[OF list.distinct(2)] wr terms_Iy_def
          diff_Suc_1 rd ad)
qed

lemma wf_upd_M: "wf st \<Longrightarrow> wf (st\<lparr>M := put (M st) i j x, TM := put (TM st) i j y\<rparr>)"
  by (simp add: wf_def rect_put)

lemma wf_upd_Ix: "wf st \<Longrightarrow> wf (st\<lparr>Ix := put (Ix st) i j x, TIx := put (TIx st) i j y\<rparr>)"
  by (simp add: wf_def rect_put)

lemma wf_upd_Iy: "wf st \<Longrightarrow> wf (st\<lparr>Iy := put (Iy st) i j x, TIy := put (TIy st) i j y\<rparr>)"
  by (simp add: wf_def rect_put)

lemma nth_put_other: "a \<noteq> i \<or> b \<noteq> j \<Longrightarrow> put fr i j v ! a ! b = fr ! a ! b"
  by (cases "i < length fr") (auto simp: put_def nth_list_update list_update_beyond)

lemma nth_put_same: "rect n m fr \<Longrightarrow> i < n \<Longrightarrow> j < m \<Longrightarrow> put fr i j v ! i ! j = v"
  by (simp add: nth_put)

lemma fill_cell_wf:
  assumes "wf st" "Suc i < length (seq2 st)" "Suc j < length (seq1 st)"
  shows "fill_cell v (Suc i) (Suc j) st =
     (case score st (seq1 st ! Suc j) (seq2 st ! Suc i) of
        None \<Rightarrow> Inl KeyError
      | Some s \<Rightarrow>
          if in_int64 (openGap st) \<and> in_int64 (extGap st)
          then Inr (cell_upd v s (Suc i) (Suc j) st) else Inl OverflowError)"
proof (cases "score st (seq1 st ! Suc j) (seq2 st ! Suc i)")
  case None
  then show ?thesis
    unfolding fill_cell_def fill_M_wf[OF assms] by simp
next
  case (Some s)
  let ?n = "length (seq2 st)" and ?m = "length (seq1 st)"
  let ?i = "Suc i" and ?j = "Suc j"
  define st1 where "st1 = st\<lparr> M := put (M st) ?i ?j (Max (set (terms_M st ?i ?j s))),
      TM := put (TM st) ?i ?j (pos_of (terms_M st ?i ?j s) (Max (set (terms_M st ?i ?j s)))) \<rparr>"
  define st2 where "st2 = st1\<lparr> Ix := put (Ix st1) ?i ?j (Max (set (terms_Ix v st ?i ?j))),
      TIx := put (TIx st1) ?i ?j (pos_of (terms_Ix v st ?i ?j) (Max (set (terms_Ix v st ?i ?j)))) \<rparr>"
  define st3 where "st3 = st2\<lparr> Iy := put (Iy st2) ?i ?j (Max (set (terms_Iy v st ?i ?j))),
      TIy := put (TIy st2) ?i ?j (pos_of (terms_Iy v st ?i ?j) (Max (set (terms_Iy v st ?i ?j)))) \<rparr>"
  have r: "rect ?n ?m (M st)" "rect ?n ?m (Ix st)" "rect ?n ?m (Iy st)" "rect ?n ?m (F st)"
    using assms(1) by (simp_all add: wf_def)
  have w1: "wf st1" unfolding st1_def by (rule wf_upd_M[OF assms(1)])
  have s1: "seq1 st1 = seq1 st" "seq2 st1 = seq2 st" by (simp_all add: st1_def)
  have w2: "wf st2" unfolding st2_def by (rule wf_upd_Ix[OF w1])
  have s2: "seq1 st2 = seq1 st" "seq2 st2 = seq2 st" by (simp_all add: st2_def st1_def)
  have tx: "terms_Ix v st1 ?i ?j = terms_Ix v st ?i ?j"
    by (simp add: terms_Ix_def st1_def nth_put_other)
  have ty: "terms_Iy v st2 ?i ?j = terms_Iy v st ?i ?j"
    by (simp add: terms_Iy_def st2_def st1_def nth_put_other)
  have f1: "fill_M (int ?i) (int ?j) st = Inr (st1, Max (set (terms_M st ?i ?j s)))"
    unfolding fill_M_wf[OF assms] Some st1_def by simp
  have p1: "openGap st1 = openGap st" "extGap st1 = extGap st" by (simp_all add: st1_def)
  have p2: "openGap st2 = openGap st" "extGap st2 = extGap st" by (simp_all add: st2_def st1_def)
  show ?thesis
  proof (cases "in_int64 (openGap st) \<and> in_int64 (extGap st)")
    case False
    have "fill_Ix v (int ?i) (int ?j) st1 = Inl OverflowError"
      by (rule fill_Ix_overflow[OF w1]) (use assms(2,3) s1 p1 False in simp_all)
    then have "fill_cell v ?i ?j st = Inl OverflowError"
      unfolding fill_cell_def f1 bindE_Inr prod.case by simp
    then show ?thesis using Some False by simp
  next
    case True
  have f2: "fill_Ix v (int ?i) (int ?j) st1 = Inr (st2, Max (set (terms_Ix v st ?i ?j)))"
    unfolding st2_def using fill_Ix_wf[OF w1, of i j v] assms(2,3) s1 p1 True tx by simp
  have f3: "fill_Iy v (int ?i) (int ?j) st2 = Inr (st3, Max (set (terms_Iy v st ?i ?j)))"
    unfolding st3_def using fill_Iy_wf[OF w2, of i j v] assms(2,3) s2 p2 True ty by simp
  have rF: "rect ?n ?m (F st3)" using r(4) by (simp add: st3_def st2_def st1_def)
  have wrF: "\<And>x. iat_set (F st3) (int ?i) (int ?j) x = Inr (put (F st3) ?i ?j x)"
    by (rule iat_set_nat[OF rF assms(2,3)])
  have "fill_cell v ?i ?j st =
      Inr (st3\<lparr>F := put (F st3) ?i ?j
         (Max (set [Max (set (terms_M st ?i ?j s)), Max (set (terms_Ix v st ?i ?j)),
                    Max (set (terms_Iy v st ?i ?j))]))\<rparr>)"
    unfolding fill_cell_def f1 bindE_Inr prod.case f2 f3 py_max_Cons wrF ..
  also have "\<dots> = Inr (cell_upd v s ?i ?j st)"
    unfolding cell_upd_def st3_def st2_def st1_def by simp
  finally show ?thesis using Some True by simp
  qed
qed

subsection \<open>What a pass changes and what it keeps\<close>

lemma cell_upd_static [simp]:
  "score (cell_upd v s i j st) = score st"
  "openGap (cell_upd v s i j st) = openGap st"
  "extGap (cell_upd v s i j st) = extGap st"
  "seq1 (cell_upd v s i j st) = seq1 st"
  "seq2 (cell_upd v s i j st) = seq2 st"
  by (simp_all add: cell_upd_def)

lemma wf_cell_upd: "wf st \<Longrightarrow> wf (cell_upd v s i j st)"
  by (simp add: wf_def cell_upd_def rect_put)

lemma cell_upd_other:
  assumes "wf st" "i < length (seq2 st)" "j < length (seq1 st)" "a \<noteq> i \<or> b \<noteq> j"
  shows "F (cell_upd v s i j st) ! a ! b = F st ! a ! b"
    "M (cell_upd v s i j st) ! a ! b = M st ! a ! b"
    "Ix (cell_upd v s i j st) ! a ! b = Ix st ! a ! b"
    "Iy (cell_upd v s i j st) ! a ! b = Iy st ! a ! b"
    "TM (cell_upd v s i j st) ! a ! b = TM st ! a ! b"
    "TIx (cell_upd v s i j st) ! a ! b = TIx st ! a ! b"
    "TIy (cell_upd v s i j st) ! a ! b = TIy st ! a ! b"
  using assms(4) by (simp_all add: cell_upd_def nth_put_other)

lemma cell_upd_at:
  assumes "wf st" "i < length (seq2 st)" "j < length (seq1 st)"
  shows "M (cell_upd v s i j st) ! i ! j = Max (set (terms_M st i j s))"
    "TM (cell_upd v s i j st) ! i ! j = pos_of (terms_M st i j s) (Max (set (terms_M st i j s)))"
    "Ix (cell_upd v s i j st) ! i ! j = Max (set (terms_Ix v st i j))"
    "TIx (cell_upd v s i j st) ! i ! j = pos_of (terms_Ix v st i j) (Max (set (terms_Ix v st i j)))"
    "Iy (cell_upd v s i j st) ! i ! j = Max (set (terms_Iy v st i j))"
    "TIy (cell_upd v s i j st) ! i ! j = pos_of (terms_Iy v st i j) (Max (set (terms_Iy v st i j)))"
    "F (cell_upd v s i j st) ! i ! j =
       Max (set [Max (set (terms_M st i j s)), Max (set (terms_Ix v st i j)),
                 Max (set (terms_Iy v st i j))])"
proof -
  let ?n = "length (seq2 st)" and ?m = "length (seq1 st)"
  have r: "rect ?n ?m (F st)" "rect ?n ?m (M st)" "rect ?n ?m (Ix st)" "rect ?n ?m (Iy st)"
    "rect ?n ?m (TM st)" "rect ?n ?m (TIx st)" "rect ?n ?m (TIy st)"
    using assms(1) by (simp_all add: wf_def)
  note same = r[THEN nth_put_same, OF assms(2,3)]
  show "M (cell_upd v s i j st) ! i ! j = Max (set (terms_M st i j s))"
    "TM (cell_upd v s i j st) ! i ! j = pos_of (terms_M st i j s) (Max (set (terms_M st i j s)))"
    "Ix (cell_upd v s i j st) ! i ! j = Max (set (terms_Ix v st i j))"
    "TIx (cell_upd v s i j st) ! i ! j = pos_of (terms_Ix v st i j) (Max (set (terms_Ix v st i j)))"
    "Iy (cell_upd v s i j st) ! i ! j = Max (set (terms_Iy v st i j))"
    "TIy (cell_upd v s i j st) ! i ! j = pos_of (terms_Iy v st i j) (Max (set (terms_Iy v st i j)))"
    "F (cell_upd v s i j st) ! i ! j =
       Max (set [Max (set (terms_M st i j s)), Max (set (terms_Ix v st i j)),
                 Max (set (terms_Iy v st i j))])"
    by (simp_all add: cell_upd_def same)
qed

lemma terms_upd_other:
  assumes "wf st" "i < length (seq2 st)" "j < length (seq1 st)"
  shows "a - 1 \<noteq> i \<or> b - 1 \<noteq> j \<Longrightarrow> terms_M (cell_upd v s i j st) a b s' = terms_M st a b s'"
    "a - 1 \<noteq> i \<or> b \<noteq> j \<Longrightarrow> terms_Ix v (cell_upd v s i j st) a b = terms_Ix v st a b"
    "a \<noteq> i \<or> b - 1 \<noteq> j \<Longrightarrow> terms_Iy v (cell_upd v s i j st) a b = terms_Iy v st a b"
  using assms by (simp_all add: terms_M_def terms_Ix_def terms_Iy_def cell_upd_other)

lemma cell_ok_upd_other:
  assumes "wf st" "i < length (seq2 st)" "j < length (seq1 st)" "cell_ok v st a b"
    and "a \<noteq> i \<or> b \<noteq> j" "a - 1 \<noteq> i \<or> b - 1 \<noteq> j" "a - 1 \<noteq> i \<or> b \<noteq> j" "a \<noteq> i \<or> b - 1 \<noteq> j"
  shows "cell_ok v (cell_upd v s i j st) a b"
  using assms(4)
  unfolding cell_ok_def
  by (simp only: cell_upd_other[OF assms(1,2,3,5)] terms_upd_other(1)[OF assms(1,2,3,6)]
        terms_upd_other(2)[OF assms(1,2,3,7)] terms_upd_other(3)[OF assms(1,2,3,8)]
        cell_upd_static)

lemma cell_ok_upd_at:
  assumes "wf st" "Suc i < length (seq2 st)" "Suc j < length (seq1 st)"
    and "score st (seq1 st ! Suc j) (seq2 st ! Suc i) = Some s"
  shows "cell_ok v (cell_upd v s (Suc i) (Suc j) st) (Suc i) (Suc j)"
proof -
  have t: "\<And>s'. terms_M (cell_upd v s (Suc i) (Suc j) st) (Suc i) (Suc j) s' = terms_M st (Suc i) (Suc j) s'"
    "terms_Ix v (cell_upd v s (Suc i) (Suc j) st) (Suc i) (Suc j) = terms_Ix v st (Suc i) (Suc j)"
    "terms_Iy v (cell_upd v s (Suc i) (Suc j) st) (Suc i) (Suc j) = terms_Iy v st (Suc i) (Suc j)"
    by (simp_all add: terms_upd_other[OF assms(1,2,3)])
  show ?thesis
    unfolding cell_ok_def t cell_upd_at[OF assms(1,2,3)] cell_upd_static
    using assms(4) by simp
qed

lemma zero_at_upd_other:
  assumes "wf st" "i < length (seq2 st)" "j < length (seq1 st)" "zero_at st a b" "a \<noteq> i \<or> b \<noteq> j"
  shows "zero_at (cell_upd v s i j st) a b"
  using assms(4) unfolding zero_at_def by (simp only: cell_upd_other[OF assms(1,2,3,5)])

lemma filled_upto_step:
  assumes inv: "filled_upto v (Suc i) (Suc j) st"
    and i: "Suc i < length (seq2 st)" and j: "Suc j < length (seq1 st)"
    and s: "score st (seq1 st ! Suc j) (seq2 st ! Suc i) = Some s"
  shows "filled_upto v (Suc i) (Suc (Suc j)) (cell_upd v s (Suc i) (Suc j) st)"
proof -
  let ?st = "cell_upd v s (Suc i) (Suc j) st"
  have w: "wf st" using inv by (simp add: filled_upto_def)
  have "if visited (Suc i) (Suc (Suc j)) a b then cell_ok v ?st a b else zero_at ?st a b"
    if a: "a < length (seq2 st)" and b: "b < length (seq1 st)" for a b
  proof -
    have old: "if visited (Suc i) (Suc j) a b then cell_ok v st a b else zero_at st a b"
      using inv a b by (simp add: filled_upto_def)
    have "(a = Suc i \<and> b = Suc j) \<or> visited (Suc i) (Suc j) a b
        \<or> \<not> visited (Suc i) (Suc (Suc j)) a b"
      unfolding visited_def by arith
    then consider (here) "a = Suc i" "b = Suc j" | (before) "visited (Suc i) (Suc j) a b"
      | (after) "\<not> visited (Suc i) (Suc (Suc j)) a b"
      by blast
    then show ?thesis
    proof cases
      case here
      then show ?thesis
        using cell_ok_upd_at[OF w i j s, of v] by (simp add: visited_def)
    next
      case before
      then have ok: "cell_ok v st a b" using old by simp
      have ne: "a \<noteq> Suc i \<or> b \<noteq> Suc j" "a - 1 \<noteq> Suc i \<or> b - 1 \<noteq> Suc j"
        "a - 1 \<noteq> Suc i \<or> b \<noteq> Suc j" "a \<noteq> Suc i \<or> b - 1 \<noteq> Suc j"
        using before by (auto simp: visited_def)
      have "visited (Suc i) (Suc (Suc j)) a b" using before by (auto simp: visited_def)
      then show ?thesis using cell_ok_upd_other[OF w i j ok ne] by simp
    next
      case after
      then have nv: "\<not> visited (Suc i) (Suc j) a b" and ne: "a \<noteq> Suc i \<or> b \<noteq> Suc j"
        by (auto simp: visited_def)
      have "zero_at st a b" using old nv by simp
      then show ?thesis using zero_at_upd_other[OF w i j _ ne] after by simp
    qed
  qed
  then show ?thesis
    using wf_cell_upd[OF w] by (simp add: filled_upto_def)
qed

subsection \<open>The two loops of fillMatrix\<close>

lemma same_input_refl: "same_input st st"
  by (simp add: same_input_def)

lemma same_input_trans: "same_input a b \<Longrightarrow> same_input b c \<Longrightarrow> same_input a c"
  by (simp add: same_input_def)

lemma same_input_cell_upd: "same_input st (cell_upd v s i j st)"
  by (simp add: same_input_def)

lemma complete_same: "same_input st st' \<Longrightarrow> complete st \<Longrightarrow> complete st'"
  by (simp add: same_input_def complete_def)

lemma fill_row_inv:
  assumes "filled_upto v (Suc i) j0 st" "Suc i < length (seq2 st)" "1 \<le> j0"
    "j0 \<le> length (seq1 st)" "fill_row v (Suc i) [j0..<length (seq1 st)] st = Inr st'"
  shows "filled_upto v (Suc i) (length (seq1 st)) st' \<and> same_input st st'"
  using assms
proof (induction "length (seq1 st) - j0" arbitrary: j0 st)
  case 0
  then have "[j0..<length (seq1 st)] = []" by simp
  with 0 show ?case by (simp add: same_input_refl)
next
  case (Suc k)
  from Suc.hyps(2) Suc.prems(3) obtain j where j: "j0 = Suc j" "Suc j < length (seq1 st)"
    by (cases j0) auto
  have w: "wf st" using Suc.prems(1) by (simp add: filled_upto_def)
  have l: "[j0..<length (seq1 st)] = Suc j # [Suc (Suc j)..<length (seq1 st)]"
    using j by (simp add: upt_conv_Cons)
  from Suc.prems(5) obtain st1 where
    c: "fill_cell v (Suc i) (Suc j) st = Inr st1"
    and rest: "fill_row v (Suc i) [Suc (Suc j)..<length (seq1 st)] st1 = Inr st'"
    unfolding l by (auto simp: bindE_eq_Inr)
  from c obtain s where s: "score st (seq1 st ! Suc j) (seq2 st ! Suc i) = Some s"
    and st1: "st1 = cell_upd v s (Suc i) (Suc j) st"
    unfolding fill_cell_wf[OF w Suc.prems(2) j(2)] by (auto split: option.splits if_splits)
  have inv1: "filled_upto v (Suc i) (Suc (Suc j)) st1"
    unfolding st1 using filled_upto_step[OF _ Suc.prems(2) j(2) s] Suc.prems(1) j(1) by simp
  have len: "length (seq1 st1) = length (seq1 st)" "length (seq2 st1) = length (seq2 st)"
    by (simp_all add: st1)
  have "filled_upto v (Suc i) (length (seq1 st1)) st' \<and> same_input st1 st'"
  proof (rule Suc.hyps(1))
    show "k = length (seq1 st1) - Suc (Suc j)" using Suc.hyps(2) j len by simp
    show "filled_upto v (Suc i) (Suc (Suc j)) st1" by (rule inv1)
    show "Suc i < length (seq2 st1)" using Suc.prems(2) len by simp
    show "1 \<le> Suc (Suc j)" by simp
    show "Suc (Suc j) \<le> length (seq1 st1)" using j len by simp
    show "fill_row v (Suc i) [Suc (Suc j)..<length (seq1 st1)] st1 = Inr st'"
      using rest len by simp
  qed
  then show ?case
    using len same_input_trans[OF same_input_cell_upd[of st v s "Suc i" "Suc j"]] st1 by auto
qed

lemma fill_row_total:
  assumes "filled_upto v (Suc i) j0 st" "Suc i < length (seq2 st)" "1 \<le> j0"
    "j0 \<le> length (seq1 st)" "complete st"
  shows "\<exists>st'. fill_row v (Suc i) [j0..<length (seq1 st)] st = Inr st'"
  using assms
proof (induction "length (seq1 st) - j0" arbitrary: j0 st)
  case 0
  then have e: "[j0..<length (seq1 st)] = []" by simp
  show ?case unfolding e by simp
next
  case (Suc k)
  from Suc.hyps(2) Suc.prems(3) obtain j where j: "j0 = Suc j" "Suc j < length (seq1 st)"
    by (cases j0) auto
  have w: "wf st" using Suc.prems(1) by (simp add: filled_upto_def)
  have l: "[j0..<length (seq1 st)] = Suc j # [Suc (Suc j)..<length (seq1 st)]"
    using j by (simp add: upt_conv_Cons)
  from Suc.prems(5) Suc.prems(2) j(2) obtain s where
    s: "score st (seq1 st ! Suc j) (seq2 st ! Suc i) = Some s"
    unfolding complete_def by fastforce
  define st1 where "st1 = cell_upd v s (Suc i) (Suc j) st"
  have c: "fill_cell v (Suc i) (Suc j) st = Inr st1"
    unfolding fill_cell_wf[OF w Suc.prems(2) j(2)] st1_def
    using s Suc.prems(5) by (simp add: complete_def)
  have inv1: "filled_upto v (Suc i) (Suc (Suc j)) st1"
    unfolding st1_def using filled_upto_step[OF _ Suc.prems(2) j(2) s] Suc.prems(1) j(1) by simp
  have len: "length (seq1 st1) = length (seq1 st)" "length (seq2 st1) = length (seq2 st)"
    by (simp_all add: st1_def)
  have "\<exists>st'. fill_row v (Suc i) [Suc (Suc j)..<length (seq1 st1)] st1 = Inr st'"
  proof (rule Suc.hyps(1))
    show "k = length (seq1 st1) - Suc (Suc j)" using Suc.hyps(2) j len by simp
    show "filled_upto v (Suc i) (Suc (Suc j)) st1" by (rule inv1)
    show "Suc i < length (seq2 st1)" using Suc.prems(2) len by simp
    show "1 \<le> Suc (Suc j)" by simp
    show "Suc (Suc j) \<le> length (seq1 st1)" using j len by simp
    show "complete st1"
      unfolding st1_def by (rule complete_same[OF same_input_cell_upd Suc.prems(5)])
  qed
  then show ?case unfolding l using c len by simp
qed

lemma visited_next_row:
  "b < m \<Longrightarrow> visited i m a b = visited (Suc i) 1 a b"
  unfolding visited_def by arith

lemma filled_upto_next_row:
  "filled_upto v i (length (seq1 st)) st \<Longrightarrow> filled_upto v (Suc i) 1 st"
  unfolding filled_upto_def by (simp add: visited_next_row)

lemma fill_rows_inv:
  assumes "filled_upto v i0 1 st" "1 \<le> i0" "i0 \<le> length (seq2 st)"
    "fill_rows v [i0..<length (seq2 st)] st = Inr st'"
  shows "filled_upto v (length (seq2 st)) 1 st' \<and> same_input st st'"
  using assms
proof (induction "length (seq2 st) - i0" arbitrary: i0 st)
  case 0
  then have "[i0..<length (seq2 st)] = []" "i0 = length (seq2 st)" by simp_all
  with 0 show ?case by (simp add: same_input_refl)
next
  case (Suc k)
  from Suc.hyps(2) Suc.prems(2) obtain i where i: "i0 = Suc i" "Suc i < length (seq2 st)"
    by (cases i0) auto
  have l: "[i0..<length (seq2 st)] = Suc i # [Suc (Suc i)..<length (seq2 st)]"
    using i by (simp add: upt_conv_Cons)
  from Suc.prems(4) obtain st1 where
    r: "fill_row v (Suc i) [1..<length (seq1 st)] st = Inr st1"
    and rest: "fill_rows v [Suc (Suc i)..<length (seq2 st)] st1 = Inr st'"
    unfolding l by (auto simp: bindE_eq_Inr)
  have w: "wf st" using Suc.prems(1) by (simp add: filled_upto_def)
  have m: "1 \<le> length (seq1 st)" using w by (simp add: wf_def Suc_le_eq)
  have row: "filled_upto v (Suc i) (length (seq1 st)) st1 \<and> same_input st st1"
    by (rule fill_row_inv[OF _ i(2) _ m r]) (use Suc.prems(1) i(1) in simp_all)
  then have len: "length (seq1 st1) = length (seq1 st)" "length (seq2 st1) = length (seq2 st)"
    by (simp_all add: same_input_def)
  have inv1: "filled_upto v (Suc (Suc i)) 1 st1"
    using row filled_upto_next_row[of v "Suc i" st1] len by simp
  have "filled_upto v (length (seq2 st1)) 1 st' \<and> same_input st1 st'"
  proof (rule Suc.hyps(1))
    show "k = length (seq2 st1) - Suc (Suc i)" using Suc.hyps(2) i len by simp
    show "filled_upto v (Suc (Suc i)) 1 st1" by (rule inv1)
    show "1 \<le> Suc (Suc i)" by simp
    show "Suc (Suc i) \<le> length (seq2 st1)" using i len by simp
    show "fill_rows v [Suc (Suc i)..<length (seq2 st1)] st1 = Inr st'" using rest len by simp
  qed
  then show ?case using len row same_input_trans by auto
qed

lemma fill_rows_total:
  assumes "filled_upto v i0 1 st" "1 \<le> i0" "i0 \<le> length (seq2 st)" "complete st"
  shows "\<exists>st'. fill_rows v [i0..<length (seq2 st)] st = Inr st'"
  using assms
proof (induction "length (seq2 st) - i0" arbitrary: i0 st)
  case 0
  then have e: "[i0..<length (seq2 st)] = []" by simp
  show ?case unfolding e by simp
next
  case (Suc k)
  from Suc.hyps(2) Suc.prems(2) obtain i where i: "i0 = Suc i" "Suc i < length (seq2 st)"
    by (cases i0) auto
  have l: "[i0..<length (seq2 st)] = Suc i # [Suc (Suc i)..<length (seq2 st)]"
    using i by (simp add: upt_conv_Cons)
  have w: "wf st" using Suc.prems(1) by (simp add: filled_upto_def)
  have m: "1 \<le> length (seq1 st)" using w by (simp add: wf_def Suc_le_eq)
  have inv0: "filled_upto v (Suc i) 1 st" using Suc.prems(1) i(1) by simp
  obtain st1 where r: "fill_row v (Suc i) [1..<length (seq1 st)] st = Inr st1"
    using fill_row_total[OF inv0 i(2) _ m Suc.prems(4)] by auto
  have row: "filled_upto v (Suc i) (length (seq1 st)) st1 \<and> same_input st st1"
    by (rule fill_row_inv[OF inv0 i(2) _ m r]) simp
  then have len: "length (seq1 st1) = length (seq1 st)" "length (seq2 st1) = length (seq2 st)"
    by (simp_all add: same_input_def)
  have inv1: "filled_upto v (Suc (Suc i)) 1 st1"
    using row filled_upto_next_row[of v "Suc i" st1] len by simp
  have "\<exists>st'. fill_rows v [Suc (Suc i)..<length (seq2 st1)] st1 = Inr st'"
  proof (rule Suc.hyps(1))
    show "k = length (seq2 st1) - Suc (Suc i)" using Suc.hyps(2) i len by simp
    show "filled_upto v (Suc (Suc i)) 1 st1" by (rule inv1)
    show "1 \<le> Suc (Suc i)" by simp
    show "Suc (Suc i) \<le> length (seq2 st1)" using i len by simp
    show "complete st1" using complete_same row Suc.prems(4) by blast
  qed
  then show ?case unfolding l using r len by simp
qed

subsection \<open>fillMatrix on a fresh object\<close>

lemma rect_zeros: "n = length rows \<Longrightarrow> m = length cols \<Longrightarrow> rect n m (zeros rows cols)"
  by (simp add: rect_def zeros_def)

lemma nth_zeros: "a < length rows \<Longrightarrow> b < length cols \<Longrightarrow> zeros rows cols ! a ! b = 0"
  by (simp add: zeros_def)

lemma init_fields [simp]:
  "score (init sc s1 s2 og eg) = sc"
  "openGap (init sc s1 s2 og eg) = og"
  "extGap (init sc s1 s2 og eg) = eg"
  "seq1 (init sc s1 s2 og eg) = CHR 0x09 # s1"
  "seq2 (init sc s1 s2 og eg) = CHR 0x09 # s2"
  by (simp_all add: init_def Let_def)

lemma wf_init: "wf (init sc s1 s2 og eg)"
  unfolding wf_def init_fields
  by (simp add: init_def Let_def rect_zeros)

lemma zero_at_init:
  "a \<le> length s2 \<Longrightarrow> b \<le> length s1 \<Longrightarrow> zero_at (init sc s1 s2 og eg) a b"
  by (simp add: zero_at_def init_def Let_def nth_zeros)

lemma init_inv: "filled_upto v 1 1 (init sc s1 s2 og eg)"
  unfolding filled_upto_def
  by (auto simp: wf_init visited_def zero_at_init)

lemma fillMatrix_filled:
  assumes "fillMatrix v (init sc s1 s2 og eg) = Inr st"
  shows "filled v st" and "same_input (init sc s1 s2 og eg) st"
proof -
  let ?st0 = "init sc s1 s2 og eg"
  have "filled_upto v (length (seq2 ?st0)) 1 st \<and> same_input ?st0 st"
    by (rule fill_rows_inv[OF init_inv]) (use assms in \<open>simp_all add: fillMatrix_def\<close>)
  then have inv: "filled_upto v (length (seq2 st)) 1 st" and same: "same_input ?st0 st"
    by (simp_all add: same_input_def)
  show "same_input ?st0 st" by (rule same)
  have "visited (length (seq2 st)) 1 a b \<longleftrightarrow> 1 \<le> a \<and> 1 \<le> b" if "a < length (seq2 st)" for a b
    using that unfolding visited_def by arith
  then show "filled v st"
    using inv unfolding filled_def filled_upto_def by simp
qed

lemma fillMatrix_total:
  assumes "\<forall>a\<in>set s1. \<forall>b\<in>set s2. sc a b \<noteq> None" and "in_int64 og" and "in_int64 eg"
  shows "\<exists>st. fillMatrix v (init sc s1 s2 og eg) = Inr st"
proof -
  have "complete (init sc s1 s2 og eg)"
    unfolding complete_def init_fields
  proof (intro conjI allI impI)
    show "in_int64 og" "in_int64 eg" by (rule assms(2), rule assms(3))
  next
    fix a b
    assume "1 \<le> a" "a < length (CHR 0x09 # s2)" "1 \<le> b" "b < length (CHR 0x09 # s1)"
    then have "(CHR 0x09 # s1) ! b \<in> set s1" "(CHR 0x09 # s2) ! a \<in> set s2"
      by (cases b, simp, simp, cases a, simp, simp)
    then show "sc ((CHR 0x09 # s1) ! b) ((CHR 0x09 # s2) ! a) \<noteq> None"
      using assms by blast
  qed
  from fill_rows_total[OF init_inv _ _ this, of v]
  show ?thesis by (simp add: fillMatrix_def)
qed

lemma filled_fields:
  assumes "fillMatrix v (init sc s1 s2 og eg) = Inr st"
  shows "score st = sc" "openGap st = og" "extGap st = eg"
    "seq1 st = CHR 0x09 # s1" "seq2 st = CHR 0x09 # s2"
  using fillMatrix_filled(2)[OF assms] by (simp_all add: same_input_def)

lemma Max_list_ge: "x \<in> set xs \<Longrightarrow> x \<le> Max (set xs)"
  by simp

lemma terms_have_zero:
  "0 \<in> set (terms_M st i j s)" "0 \<in> set (terms_Ix v st i j)" "0 \<in> set (terms_Iy v st i j)"
  by (simp_all add: terms_M_def terms_Ix_def terms_Iy_def)

lemma cell_ok_nonneg:
  assumes "cell_ok v st i j"
  shows "0 \<le> M st ! i ! j" "0 \<le> Ix st ! i ! j" "0 \<le> Iy st ! i ! j" "0 \<le> F st ! i ! j"
proof -
  from assms obtain s where m: "M st ! i ! j = Max (set (terms_M st i j s))"
    and x: "Ix st ! i ! j = Max (set (terms_Ix v st i j))"
    and y: "Iy st ! i ! j = Max (set (terms_Iy v st i j))"
    and f: "F st ! i ! j = Max (set [M st ! i ! j, Ix st ! i ! j, Iy st ! i ! j])"
    unfolding cell_ok_def by blast
  show 1: "0 \<le> M st ! i ! j" unfolding m by (rule Max_list_ge[OF terms_have_zero(1)])
  show "0 \<le> Ix st ! i ! j" unfolding x by (rule Max_list_ge[OF terms_have_zero(2)])
  show "0 \<le> Iy st ! i ! j" unfolding y by (rule Max_list_ge[OF terms_have_zero(3)])
  have "M st ! i ! j \<le> F st ! i ! j" unfolding f by simp
  with 1 show "0 \<le> F st ! i ! j" by simp
qed

lemma filled_nonneg:
  assumes "filled v st" "i < length (seq2 st)" "j < length (seq1 st)"
  shows "0 \<le> M st ! i ! j \<and> 0 \<le> Ix st ! i ! j \<and> 0 \<le> Iy st ! i ! j \<and> 0 \<le> F st ! i ! j"
proof (cases "1 \<le> i \<and> 1 \<le> j")
  case True
  then have "cell_ok v st i j" using assms by (simp add: filled_def)
  then show ?thesis using cell_ok_nonneg by blast
next
  case False
  then have "zero_at st i j" using assms by (auto simp: filled_def)
  then show ?thesis by (simp add: zero_at_def)
qed

lemma filled_F_max:
  assumes "filled v st" "i < length (seq2 st)" "j < length (seq1 st)"
  shows "F st ! i ! j = max (M st ! i ! j) (max (Ix st ! i ! j) (Iy st ! i ! j))"
proof (cases "1 \<le> i \<and> 1 \<le> j")
  case True
  then have "cell_ok v st i j" using assms by (simp add: filled_def)
  then show ?thesis by (simp add: cell_ok_def)
next
  case False
  then have "zero_at st i j" using assms by (auto simp: filled_def)
  then show ?thesis by (simp add: zero_at_def)
qed

lemma rect_cells:
  assumes "rect n m fr" "\<And>i j. i < n \<Longrightarrow> j < m \<Longrightarrow> P (fr ! i ! j)"
  shows "\<forall>r\<in>set fr. \<forall>x\<in>set r. P x"
proof (intro ballI)
  fix r x assume r: "r \<in> set fr" and x: "x \<in> set r"
  from r obtain i where i: "i < length fr" "fr ! i = r" by (meson in_set_conv_nth)
  from x obtain j where j: "j < length r" "r ! j = x" by (meson in_set_conv_nth)
  have "i < n" using assms(1) i by (simp add: rect_def)
  moreover have "j < m" using assms(1) i j by (auto simp: rect_def)
  ultimately have "P (fr ! i ! j)" by (rule assms(2))
  then show "P x" using i j by simp
qed

lemma first_at_pos_of:
  assumes "xs \<noteq> []"
  shows "first_at xs (pos_of xs (Max (set xs)))"
  unfolding first_at_def
proof (intro conjI allI impI)
  show "pos_of xs (Max (set xs)) < length xs" by (rule pos_of_less[OF Max_in_list[OF assms]])
  show "xs ! pos_of xs (Max (set xs)) = Max (set xs)" by (rule nth_pos_of[OF Max_in_list[OF assms]])
  show "xs ! k \<noteq> Max (set xs)" if "k < pos_of xs (Max (set xs))" for k
    by (rule pos_of_first[OF that])
qed

subsection \<open>getMax and getMaxCoord\<close>

lemma mapE_series_max:
  "\<forall>r\<in>set fr. r \<noteq> [] \<Longrightarrow> mapE series_max fr = Inr (map (\<lambda>r. Max (set r)) fr)"
  by (induction fr) (simp_all add: series_max_def py_max_Max)

lemma columns_rect:
  assumes "rect n m fr" "0 < n"
  shows "columns fr = map (\<lambda>c. map (\<lambda>row. row ! c) fr) [0..<m]"
proof (cases fr)
  case Nil
  with assms show ?thesis by (simp add: rect_def)
next
  case (Cons r rs)
  have "length (fr ! 0) = m" using assms by (simp add: rect_def)
  then have "length r = m" using Cons by simp
  then show ?thesis by (simp add: columns_def Cons)
qed

lemma Max_concat_rows:
  assumes "rect n m fr" "0 < n" "0 < m"
  shows "Max (set (map (\<lambda>r. Max (set r)) fr)) = Max (set (concat fr))"
proof (rule sym, rule Max_eqI)
  show "finite (set (concat fr))" by simp
  have ne: "fr \<noteq> []" using assms by (auto simp: rect_def)
  have rows: "r \<noteq> []" if "r \<in> set fr" for r
  proof -
    from that obtain i where "i < length fr" "fr ! i = r" by (meson in_set_conv_nth)
    then have "length r = m" using assms(1) by (auto simp: rect_def)
    then show ?thesis using assms(3) by auto
  qed
  let ?rm = "map (\<lambda>r. Max (set r)) fr"
  have rmne: "?rm \<noteq> []" using ne by simp
  show "y \<le> Max (set ?rm)" if "y \<in> set (concat fr)" for y
  proof -
    from that obtain r where r: "r \<in> set fr" "y \<in> set r" by auto
    then have "y \<le> Max (set r)" by simp
    also have "Max (set r) \<in> set ?rm" using r by simp
    then have "Max (set r) \<le> Max (set ?rm)" by (rule Max_list_ge)
    finally show ?thesis .
  qed
  have "Max (set ?rm) \<in> set ?rm" by (rule Max_in_list[OF rmne])
  then obtain r where r: "r \<in> set fr" "Max (set ?rm) = Max (set r)" by auto
  have "Max (set r) \<in> set r" by (rule Max_in_list[OF rows[OF r(1)]])
  then show "Max (set ?rm) \<in> set (concat fr)" using r by auto
qed

lemma Max_concat_columns:
  assumes "rect n m fr" "0 < n" "0 < m"
  shows "Max (set (map (\<lambda>c. Max (set (map (\<lambda>row. row ! c) fr))) [0..<m])) = Max (set (concat fr))"
proof (rule sym, rule Max_eqI)
  show "finite (set (concat fr))" by simp
  have ne: "fr \<noteq> []" using assms by (auto simp: rect_def)
  let ?col = "\<lambda>c. map (\<lambda>row. row ! c) fr"
  let ?cm = "map (\<lambda>c. Max (set (?col c))) [0..<m]"
  have cmne: "?cm \<noteq> []" using assms(3) by simp
  have len: "length r = m" if "r \<in> set fr" for r
  proof -
    from that obtain i where "i < length fr" "fr ! i = r" by (meson in_set_conv_nth)
    then show ?thesis using assms(1) by (auto simp: rect_def)
  qed
  show "y \<le> Max (set ?cm)" if "y \<in> set (concat fr)" for y
  proof -
    from that obtain r where r: "r \<in> set fr" "y \<in> set r" by auto
    from r(2) obtain c where c: "c < length r" "r ! c = y" by (meson in_set_conv_nth)
    have cm: "c < m" using c len[OF r(1)] by simp
    have "y \<in> set (?col c)" using r(1) c by auto
    then have "y \<le> Max (set (?col c))" by (rule Max_list_ge)
    also have "Max (set (?col c)) \<in> set ?cm" using cm by simp
    then have "Max (set (?col c)) \<le> Max (set ?cm)" by (rule Max_list_ge)
    finally show ?thesis .
  qed
  have "Max (set ?cm) \<in> set ?cm" by (rule Max_in_list[OF cmne])
  then obtain c where c: "c < m" "Max (set ?cm) = Max (set (?col c))" by auto
  have "?col c \<noteq> []" using ne by simp
  then have "Max (set (?col c)) \<in> set (?col c)" by (rule Max_in_list)
  then obtain r where r: "r \<in> set fr" "Max (set (?col c)) = r ! c" by auto
  have "r ! c \<in> set r" using len[OF r(1)] c(1) by simp
  then show "Max (set ?cm) \<in> set (concat fr)" using r c by auto
qed

lemma rect_rows_nonempty: "rect n m fr \<Longrightarrow> 0 < m \<Longrightarrow> \<forall>r\<in>set fr. r \<noteq> []"
proof
  fix r assume a: "rect n m fr" "0 < m" "r \<in> set fr"
  from a(3) obtain i where "i < length fr" "fr ! i = r" by (meson in_set_conv_nth)
  then have "length r = m" using a(1) by (auto simp: rect_def)
  then show "r \<noteq> []" using a(2) by auto
qed

lemma getMax_wf:
  assumes "wf st"
  shows "getMax st = Inr (Max (set (concat (F st))))"
proof -
  let ?n = "length (seq2 st)" and ?m = "length (seq1 st)"
  have r: "rect ?n ?m (F st)" and n: "0 < ?n" and m: "0 < ?m"
    using assms by (simp_all add: wf_def)
  have ne: "F st \<noteq> []" using r n by (auto simp: rect_def)
  have cols: "columns (F st) = map (\<lambda>c. map (\<lambda>row. row ! c) (F st)) [0..<?m]"
    by (rule columns_rect[OF r n])
  have "\<forall>c\<in>set (columns (F st)). c \<noteq> []" unfolding cols using ne by simp
  then have fm: "frame_max (F st)
      = Inr (map (\<lambda>c. Max (set c)) (map (\<lambda>c. map (\<lambda>row. row ! c) (F st)) [0..<?m]))"
    unfolding frame_max_def using mapE_series_max cols by simp
  have "map (\<lambda>c. Max (set c)) (map (\<lambda>c. map (\<lambda>row. row ! c) (F st)) [0..<?m]) \<noteq> []"
    using m by simp
  then show ?thesis
    unfolding getMax_def fm bindE_Inr series_max_def
    using Max_concat_columns[OF r n m] by (simp add: py_max_Max comp_def)
qed

lemma argmax_pos: "xs \<noteq> [] \<Longrightarrow> argmax xs = Inr (pos_of xs (Max (set xs)))"
  by (simp add: argmax_def py_max_Max index_of_max)

lemma getMaxCoord_wf:
  assumes "wf st"
  defines "rm \<equiv> map (\<lambda>r. Max (set r)) (F st)"
  defines "i \<equiv> pos_of rm (Max (set rm))"
  shows "getMaxCoord st = Inr (i, pos_of (F st ! i) (Max (set (F st ! i))))"
    and "i < length (seq2 st)"
    and "pos_of (F st ! i) (Max (set (F st ! i))) < length (seq1 st)"
proof -
  let ?n = "length (seq2 st)" and ?m = "length (seq1 st)"
  have r: "rect ?n ?m (F st)" and n: "0 < ?n" and m: "0 < ?m"
    using assms(1) by (simp_all add: wf_def)
  have ne: "F st \<noteq> []" using r n by (auto simp: rect_def)
  have rmne: "rm \<noteq> []" using ne by (simp add: rm_def)
  have fm: "frame_max_axis1 (F st) = Inr rm"
    unfolding frame_max_axis1_def rm_def
    by (rule mapE_series_max[OF rect_rows_nonempty[OF r m]])
  have "i < length rm" unfolding i_def by (rule pos_of_less[OF Max_in_list[OF rmne]])
  then have il: "i < length (F st)" by (simp add: rm_def)
  then show i: "i < ?n" using r by (simp add: rect_def)
  have row: "length (F st ! i) = ?m" using r i by (simp add: rect_def)
  then have rne: "F st ! i \<noteq> []" using m by auto
  show "pos_of (F st ! i) (Max (set (F st ! i))) < ?m"
    using pos_of_less[OF Max_in_list[OF rne]] row by simp
  show "getMaxCoord st = Inr (i, pos_of (F st ! i) (Max (set (F st ! i))))"
    unfolding getMaxCoord_def fm bindE_Inr argmax_pos[OF rmne] i_def[symmetric]
      py_index_nat[OF il] argmax_pos[OF rne] ..
qed

subsection \<open>The loop of traceback on a filled matrix\<close>

lemma filled_wf: "filled v st \<Longrightarrow> wf st"
  by (simp add: filled_def)

lemma pos_of_max_le3: "length xs = 4 \<Longrightarrow> pos_of xs (Max (set xs)) \<le> 3"
proof -
  assume l: "length xs = 4"
  then have "xs \<noteq> []" by auto
  from pos_of_less[OF Max_in_list[OF this]] l show ?thesis by simp
qed

lemma terms_length:
  "length (terms_M st a b s) = 4" "length (terms_Ix v st a b) = 4" "length (terms_Iy v st a b) = 4"
  by (simp_all add: terms_M_def terms_Ix_def terms_Iy_def)

lemma filled_trace_le3:
  assumes "filled v st" "a < length (seq2 st)" "b < length (seq1 st)"
  shows "TM st ! a ! b \<le> 3" "TIx st ! a ! b \<le> 3" "TIy st ! a ! b \<le> 3"
proof -
  have "TM st ! a ! b \<le> 3 \<and> TIx st ! a ! b \<le> 3 \<and> TIy st ! a ! b \<le> 3"
  proof (cases "1 \<le> a \<and> 1 \<le> b")
    case True
    then have ok: "cell_ok v st a b" using assms by (simp add: filled_def)
    then obtain s where
      tm: "TM st ! a ! b = pos_of (terms_M st a b s) (Max (set (terms_M st a b s)))"
      unfolding cell_ok_def by blast
    have tx: "TIx st ! a ! b = pos_of (terms_Ix v st a b) (Max (set (terms_Ix v st a b)))"
      and ty: "TIy st ! a ! b = pos_of (terms_Iy v st a b) (Max (set (terms_Iy v st a b)))"
      using ok unfolding cell_ok_def by blast+
    show ?thesis
      unfolding tm tx ty
      by (intro conjI pos_of_max_le3 terms_length)
  next
    case False
    then have "zero_at st a b" using assms by (auto simp: filled_def)
    then show ?thesis by (simp add: zero_at_def)
  qed
  then show "TM st ! a ! b \<le> 3" "TIx st ! a ! b \<le> 3" "TIy st ! a ! b \<le> 3" by simp_all
qed

lemma filled_border:
  assumes "filled v st" "a < length (seq2 st)" "b < length (seq1 st)" "a = 0 \<or> b = 0"
  shows "M st ! a ! b = 0" "Ix st ! a ! b = 0" "Iy st ! a ! b = 0" "F st ! a ! b = 0"
proof -
  have "zero_at st a b" using assms by (auto simp: filled_def)
  then show "M st ! a ! b = 0" "Ix st ! a ! b = 0" "Iy st ! a ! b = 0" "F st ! a ! b = 0"
    by (simp_all add: zero_at_def)
qed

lemma traceback_body_0:
  assumes "wf st" "Suc a < length (seq2 st)" "Suc b < length (seq1 st)"
  shows "traceback_body st 0 (int (Suc a)) (int (Suc b)) cv ls =
     Inr (TM st ! Suc a ! Suc b, int a, int b, M st ! a ! b,
          append2 (seq2 st ! Suc a) (append1 (seq1 st ! Suc b)
            (appendL (if seq1 st ! Suc b = seq2 st ! Suc a then CHR ''|'' else CHR '' '') ls)))"
proof -
  let ?n = "length (seq2 st)" and ?m = "length (seq1 st)"
  have e: "int (Suc a) - 1 = int a" "int (Suc b) - 1 = int b" by simp_all
  have r: "rect ?n ?m (M st)" "rect ?n ?m (TM st)" using assms(1) by (simp_all add: wf_def)
  have lt: "a < ?n" "b < ?m" using assms by simp_all
  have rd: "iat (TM st) (int (Suc a)) (int (Suc b)) = Inr (TM st ! Suc a ! Suc b)"
    "iat (M st) (int a) (int b) = Inr (M st ! a ! b)"
    by (rule iat_nat[OF r(2) assms(2,3)], rule iat_nat[OF r(1) lt])
  have ix: "py_index (seq1 st) (int (Suc b)) = Inr (seq1 st ! Suc b)"
    "py_index (seq2 st) (int (Suc a)) = Inr (seq2 st ! Suc a)"
    by (rule py_index_nat[OF assms(3)], rule py_index_nat[OF assms(2)])
  show ?thesis
    unfolding traceback_body_def ix bindE_Inr Let_def e rd by simp
qed

lemma traceback_body_1:
  assumes "wf st" "Suc a < length (seq2 st)" "Suc b < length (seq1 st)"
  shows "traceback_body st 1 (int (Suc a)) (int (Suc b)) cv ls =
     Inr (TIx st ! Suc a ! Suc b, int a, int (Suc b), Ix st ! a ! Suc b,
          append2 (seq2 st ! Suc a) (append1 CHR ''-''
            (appendL (if seq1 st ! Suc b = seq2 st ! Suc a then CHR ''|'' else CHR '' '') ls)))"
proof -
  let ?n = "length (seq2 st)" and ?m = "length (seq1 st)"
  have e: "int (Suc a) - 1 = int a" by simp
  have r: "rect ?n ?m (Ix st)" "rect ?n ?m (TIx st)" using assms(1) by (simp_all add: wf_def)
  have lt: "a < ?n" using assms by simp
  have rd: "iat (TIx st) (int (Suc a)) (int (Suc b)) = Inr (TIx st ! Suc a ! Suc b)"
    "iat (Ix st) (int a) (int (Suc b)) = Inr (Ix st ! a ! Suc b)"
    by (rule iat_nat[OF r(2) assms(2,3)], rule iat_nat[OF r(1) lt assms(3)])
  have ix: "py_index (seq1 st) (int (Suc b)) = Inr (seq1 st ! Suc b)"
    "py_index (seq2 st) (int (Suc a)) = Inr (seq2 st ! Suc a)"
    by (rule py_index_nat[OF assms(3)], rule py_index_nat[OF assms(2)])
  show ?thesis
    unfolding traceback_body_def ix bindE_Inr Let_def e rd by simp
qed

lemma traceback_body_2:
  assumes "wf st" "Suc a < length (seq2 st)" "Suc b < length (seq1 st)"
  shows "traceback_body st 2 (int (Suc a)) (int (Suc b)) cv ls =
     Inr (TIy st ! Suc a ! Suc b, int (Suc a), int b, Iy st ! Suc a ! b,
          append2 CHR ''-'' (append1 (seq1 st ! Suc b)
            (appendL (if seq1 st ! Suc b = seq2 st ! Suc a then CHR ''|'' else CHR '' '') ls)))"
proof -
  let ?n = "length (seq2 st)" and ?m = "length (seq1 st)"
  have e: "int (Suc b) - 1 = int b" by simp
  have r: "rect ?n ?m (Iy st)" "rect ?n ?m (TIy st)" using assms(1) by (simp_all add: wf_def)
  have lt: "b < ?m" using assms by simp
  have rd: "iat (TIy st) (int (Suc a)) (int (Suc b)) = Inr (TIy st ! Suc a ! Suc b)"
    "iat (Iy st) (int (Suc a)) (int b) = Inr (Iy st ! Suc a ! b)"
    by (rule iat_nat[OF r(2) assms(2,3)], rule iat_nat[OF r(1) assms(2) lt])
  have ix: "py_index (seq1 st) (int (Suc b)) = Inr (seq1 st ! Suc b)"
    "py_index (seq2 st) (int (Suc a)) = Inr (seq2 st ! Suc a)"
    by (rule py_index_nat[OF assms(3)], rule py_index_nat[OF assms(2)])
  show ?thesis
    unfolding traceback_body_def ix bindE_Inr Let_def e rd by simp
qed

lemma traceback_loop_stop:
  "cv = 0 \<or> state = 3 \<Longrightarrow> traceback_loop st state i j cv ls = Some (Inr (i, j, ls))"
  by (subst traceback_loop.simps) auto

lemma traceback_loop_step:
  "cv \<noteq> 0 \<Longrightarrow> state \<noteq> 3 \<Longrightarrow>
   traceback_body st state i j cv ls = Inr (state', i', j', cv', ls') \<Longrightarrow>
   traceback_loop st state i j cv ls = traceback_loop st state' i' j' cv' ls'"
  by (subst traceback_loop.simps) simp

lemma traceback_loop_total:
  assumes "filled v st"
  shows "a < length (seq2 st) \<Longrightarrow> b < length (seq1 st) \<Longrightarrow> state \<le> 3 \<Longrightarrow>
    (cv \<noteq> 0 \<longrightarrow> 1 \<le> a \<and> 1 \<le> b) \<Longrightarrow>
    \<exists>a' b' ls'. traceback_loop st state (int a) (int b) cv ls = Some (Inr (int a', int b', ls'))
       \<and> a' \<le> a \<and> b' \<le> b"
proof (induction "a + b" arbitrary: a b state cv ls rule: less_induct)
  case less
  have w: "wf st" by (rule filled_wf[OF assms])
  show ?case
  proof (cases "cv = 0 \<or> state = 3")
    case True
    then show ?thesis using traceback_loop_stop[OF True] by blast
  next
    case False
    then have cv: "cv \<noteq> 0" and s3: "state \<noteq> 3" by simp_all
    with less.prems obtain a0 b0 where ab: "a = Suc a0" "b = Suc b0"
      by (cases a; cases b; simp)
    have lt: "Suc a0 < length (seq2 st)" "Suc b0 < length (seq1 st)"
      using less.prems ab by simp_all
    have lt0: "a0 < length (seq2 st)" "b0 < length (seq1 st)" using lt by simp_all
    from s3 less.prems(3) consider "state = 0" | "state = 1" | "state = 2" by arith
    then show ?thesis
    proof cases
      case 1
      let ?ls = "append2 (seq2 st ! Suc a0) (append1 (seq1 st ! Suc b0)
            (appendL (if seq1 st ! Suc b0 = seq2 st ! Suc a0 then CHR ''|'' else CHR '' '') ls))"
      have step: "traceback_loop st state (int a) (int b) cv ls =
          traceback_loop st (TM st ! Suc a0 ! Suc b0) (int a0) (int b0) (M st ! a0 ! b0) ?ls"
        unfolding ab 1 using traceback_loop_step[OF cv, of 0] traceback_body_0[OF w lt]
        by simp
      have "\<exists>a' b' ls'. traceback_loop st (TM st ! Suc a0 ! Suc b0) (int a0) (int b0) (M st ! a0 ! b0) ?ls
          = Some (Inr (int a', int b', ls')) \<and> a' \<le> a0 \<and> b' \<le> b0"
      proof (rule less.hyps)
        show "a0 + b0 < a + b" using ab by simp
        show "a0 < length (seq2 st)" "b0 < length (seq1 st)" by (rule lt0)+
        show "TM st ! Suc a0 ! Suc b0 \<le> 3" by (rule filled_trace_le3(1)[OF assms lt])
        show "M st ! a0 ! b0 \<noteq> 0 \<longrightarrow> 1 \<le> a0 \<and> 1 \<le> b0"
          using filled_border(1)[OF assms lt0] by (cases a0; cases b0; simp)
      qed
      then show ?thesis unfolding step using ab by fastforce
    next
      case 2
      let ?ls = "append2 (seq2 st ! Suc a0) (append1 CHR ''-''
            (appendL (if seq1 st ! Suc b0 = seq2 st ! Suc a0 then CHR ''|'' else CHR '' '') ls))"
      have step: "traceback_loop st state (int a) (int b) cv ls =
          traceback_loop st (TIx st ! Suc a0 ! Suc b0) (int a0) (int (Suc b0)) (Ix st ! a0 ! Suc b0) ?ls"
        unfolding ab 2 using traceback_loop_step[OF cv, of 1] traceback_body_1[OF w lt]
        by simp
      have "\<exists>a' b' ls'. traceback_loop st (TIx st ! Suc a0 ! Suc b0) (int a0) (int (Suc b0)) (Ix st ! a0 ! Suc b0) ?ls
          = Some (Inr (int a', int b', ls')) \<and> a' \<le> a0 \<and> b' \<le> Suc b0"
      proof (rule less.hyps)
        show "a0 + Suc b0 < a + b" using ab by simp
        show "a0 < length (seq2 st)" "Suc b0 < length (seq1 st)" by (rule lt0(1), rule lt(2))
        show "TIx st ! Suc a0 ! Suc b0 \<le> 3" by (rule filled_trace_le3(2)[OF assms lt])
        show "Ix st ! a0 ! Suc b0 \<noteq> 0 \<longrightarrow> 1 \<le> a0 \<and> 1 \<le> Suc b0"
          using filled_border(2)[OF assms lt0(1) lt(2)] by (cases a0; simp)
      qed
      then show ?thesis unfolding step using ab by fastforce
    next
      case 3
      let ?ls = "append2 CHR ''-'' (append1 (seq1 st ! Suc b0)
            (appendL (if seq1 st ! Suc b0 = seq2 st ! Suc a0 then CHR ''|'' else CHR '' '') ls))"
      have step: "traceback_loop st state (int a) (int b) cv ls =
          traceback_loop st (TIy st ! Suc a0 ! Suc b0) (int (Suc a0)) (int b0) (Iy st ! Suc a0 ! b0) ?ls"
        unfolding ab 3 using traceback_loop_step[OF cv, of 2] traceback_body_2[OF w lt]
        by simp
      have "\<exists>a' b' ls'. traceback_loop st (TIy st ! Suc a0 ! Suc b0) (int (Suc a0)) (int b0) (Iy st ! Suc a0 ! b0) ?ls
          = Some (Inr (int a', int b', ls')) \<and> a' \<le> Suc a0 \<and> b' \<le> b0"
      proof (rule less.hyps)
        show "Suc a0 + b0 < a + b" using ab by simp
        show "Suc a0 < length (seq2 st)" "b0 < length (seq1 st)" by (rule lt(1), rule lt0(2))
        show "TIy st ! Suc a0 ! Suc b0 \<le> 3" by (rule filled_trace_le3(3)[OF assms lt])
        show "Iy st ! Suc a0 ! b0 \<noteq> 0 \<longrightarrow> 1 \<le> Suc a0 \<and> 1 \<le> b0"
          using filled_border(3)[OF assms lt(1) lt0(2)] by (cases b0; simp)
      qed
      then show ?thesis unfolding step using ab by fastforce
    qed
  qed
qed

lemma int64_penalties: "in_int64 (- 2)" "in_int64 (- 1)" "in_int64 5"
  by (simp_all add: in_int64_def)

lemma flat_score_total:
  "in_int64 og \<Longrightarrow> in_int64 eg \<Longrightarrow>
   \<exists>st. fillMatrix v (init (flat_score x y) s1 s2 og eg) = Inr st"
  by (rule fillMatrix_total) (simp_all add: flat_score_def)

lemma wf_rects:
  assumes "fillMatrix v (init sc s1 s2 og eg) = Inr st"
  shows "rect (Suc (length s2)) (Suc (length s1)) (F st)"
    "rect (Suc (length s2)) (Suc (length s1)) (M st)"
    "rect (Suc (length s2)) (Suc (length s1)) (Ix st)"
    "rect (Suc (length s2)) (Suc (length s1)) (Iy st)"
  using filled_wf[OF fillMatrix_filled(1)[OF assms]] filled_fields(4,5)[OF assms]
  by (simp_all add: wf_def)

lemma rect_row_max:
  assumes "rect n m fr" "0 < n" "0 < m"
  shows "Max (set (map (\<lambda>r. Max (set r)) fr)) = global_max fr"
    and "a < n \<Longrightarrow> map (\<lambda>r. Max (set r)) fr ! a = row_max fr a"
  using Max_concat_rows[OF assms] assms(1) by (simp_all add: global_max_def row_max_def rect_def)

subsection \<open>completeFront, completeBack and the display\<close>

lemma py_index_int: "0 \<le> k \<Longrightarrow> k < int (length xs) \<Longrightarrow> py_index xs k = Inr (xs ! nat k)"
  by (simp add: py_index_def py_pos_def)

lemma completeFront_loop_stop:
  "i \<le> 0 \<Longrightarrow> j \<le> 0 \<Longrightarrow> completeFront_loop st i j ls = Inr ls"
  by (subst completeFront_loop.simps) simp

lemma completeBack_loop_stop:
  "int (length (seq2 st)) \<le> i \<Longrightarrow> int (length (seq1 st)) \<le> j \<Longrightarrow>
   completeBack_loop st i j ls = Inr ls"
  by (subst completeBack_loop.simps) simp

lemma extends_refl: "extends ls ls"
  by (simp add: extends_def)

lemma extends_trans: "extends a b \<Longrightarrow> extends b c \<Longrightarrow> extends a c"
  unfolding extends_def by (metis append.assoc)

lemma extends_append: "extends ls (append2 c2 (appendL cl (append1 c1 ls)))"
  by (simp add: extends_def append1_def append2_def appendL_def)

lemma completeFront_loop_total:
  "i < int (length (seq2 st)) \<Longrightarrow> j < int (length (seq1 st)) \<Longrightarrow>
   \<exists>ls'. completeFront_loop st i j ls = Inr ls' \<and> extends ls ls'"
proof (induction st i j ls rule: completeFront_loop.induct)
  case (1 st i j ls)
  show ?case
  proof (cases "i > 0 \<or> j > 0")
    case False
    then show ?thesis using completeFront_loop_stop[of i j st ls] extends_refl by auto
  next
    case True
    define c1 where "c1 = (if j > 0 then seq1 st ! nat j else CHR '' '')"
    define c2 where "c2 = (if i > 0 then seq2 st ! nat i else CHR '' '')"
    have x: "(if j > 0 then py_index (seq1 st) j else Inr CHR '' '') = Inr c1"
      using "1.prems"(2) by (simp add: c1_def py_index_int)
    have y: "(if i > 0 then py_index (seq2 st) i else Inr CHR '' '') = Inr c2"
      using "1.prems"(1) by (simp add: c2_def py_index_int)
    have "\<exists>ls'. completeFront_loop st (i - 1) (j - 1) (append2 c2 (appendL CHR '' '' (append1 c1 ls)))
        = Inr ls' \<and> extends (append2 c2 (appendL CHR '' '' (append1 c1 ls))) ls'"
      by (rule "1.IH"[OF True x y]) (use "1.prems" in simp_all)
    then obtain ls' where
      r: "completeFront_loop st (i - 1) (j - 1) (append2 c2 (appendL CHR '' '' (append1 c1 ls))) = Inr ls'"
      and e: "extends (append2 c2 (appendL CHR '' '' (append1 c1 ls))) ls'"
      by blast
    have "completeFront_loop st i j ls = Inr ls'"
      by (subst completeFront_loop.simps) (simp add: True x y r)
    then show ?thesis using extends_trans[OF extends_append e] by blast
  qed
qed

lemma completeBack_loop_total:
  "0 \<le> i \<Longrightarrow> 0 \<le> j \<Longrightarrow> \<exists>ls'. completeBack_loop st i j ls = Inr ls' \<and> extends ls ls'"
proof (induction st i j ls rule: completeBack_loop.induct)
  case (1 st i j ls)
  let ?n = "int (length (seq2 st))" and ?m = "int (length (seq1 st))"
  show ?case
  proof (cases "i < ?n \<or> j < ?m")
    case False
    then show ?thesis using completeBack_loop_stop[of st i j ls] extends_refl by auto
  next
    case True
    define c1 where "c1 = (if j < ?m then seq1 st ! nat j else CHR '' '')"
    define c2 where "c2 = (if i < ?n then seq2 st ! nat i else CHR '' '')"
    have x: "(if j < ?m then py_index (seq1 st) j else Inr CHR '' '') = Inr c1"
      using "1.prems"(2) by (simp add: c1_def py_index_int)
    have y: "(if i < ?n then py_index (seq2 st) i else Inr CHR '' '') = Inr c2"
      using "1.prems"(1) by (simp add: c2_def py_index_int)
    have "\<exists>ls'. completeBack_loop st (i + 1) (j + 1) (append2 c2 (appendL CHR '' '' (append1 c1 ls)))
        = Inr ls' \<and> extends (append2 c2 (appendL CHR '' '' (append1 c1 ls))) ls'"
      by (rule "1.IH"[OF True x y]) (use "1.prems" in simp_all)
    then obtain ls' where
      r: "completeBack_loop st (i + 1) (j + 1) (append2 c2 (appendL CHR '' '' (append1 c1 ls))) = Inr ls'"
      and e: "extends (append2 c2 (appendL CHR '' '' (append1 c1 ls))) ls'"
      by blast
    have "completeBack_loop st i j ls = Inr ls'"
      by (subst completeBack_loop.simps) (simp add: True x y r)
    then show ?thesis using extends_trans[OF extends_append e] by blast
  qed
qed

lemma traceback_start_filled:
  assumes "filled v st"
  shows "\<exists>i j a b ls. getMaxCoord st = Inr (i, j) \<and> i < length (seq2 st) \<and> j < length (seq1 st) \<and>
     traceback_start st = traceback_loop st 0 (int i) (int j) (M st ! i ! j) no_lines \<and>
     traceback_start st = Some (Inr (int a, int b, ls)) \<and> a \<le> i \<and> b \<le> j"
proof -
  have w: "wf st" by (rule filled_wf[OF assms])
  define rm where "rm = map (\<lambda>r. Max (set r)) (F st)"
  define i where "i = pos_of rm (Max (set rm))"
  define j where "j = pos_of (F st ! i) (Max (set (F st ! i)))"
  have c: "getMaxCoord st = Inr (i, j)" and i: "i < length (seq2 st)" and j: "j < length (seq1 st)"
    using getMaxCoord_wf[OF w] unfolding rm_def i_def j_def by simp_all
  have r: "rect (length (seq2 st)) (length (seq1 st)) (M st)" using w by (simp add: wf_def)
  have rd: "iat (M st) (int i) (int j) = Inr (M st ! i ! j)" by (rule iat_nat[OF r i j])
  have s: "traceback_start st = traceback_loop st 0 (int i) (int j) (M st ! i ! j) no_lines"
    by (simp add: traceback_start_def c rd)
  have "M st ! i ! j \<noteq> 0 \<longrightarrow> 1 \<le> i \<and> 1 \<le> j"
    using filled_border(1)[OF assms i j] by (cases i; cases j; simp)
  from traceback_loop_total[OF assms i j _ this, of 0 no_lines]
  obtain a b ls where "traceback_loop st 0 (int i) (int j) (M st ! i ! j) no_lines
      = Some (Inr (int a, int b, ls))" "a \<le> i" "b \<le> j"
    by auto
  then show ?thesis using c i j s by auto
qed

lemma completeFront_shape:
  assumes "a < length (seq2 st)" "b < length (seq1 st)"
  shows "\<exists>ls' x y z. completeFront st (int a) (int b) ls = Inr ls' \<and>
     matchStr1 ls' = matchStr1 ls @ ''('' @ x \<and> matchStr2 ls' = matchStr2 ls @ ''('' @ y \<and>
     matchLine ls' = matchLine ls @ '' '' @ z"
proof -
  let ?ls0 = "appendL CHR '' '' (append2 CHR ''('' (append1 CHR ''('' ls))"
  from completeFront_loop_total[of "int a" st "int b" ?ls0] assms
  obtain ls' where r: "completeFront_loop st (int a) (int b) ?ls0 = Inr ls'"
    and e: "extends ?ls0 ls'" by auto
  from e obtain x y z where "matchStr1 ls' = matchStr1 ?ls0 @ x" "matchStr2 ls' = matchStr2 ?ls0 @ y"
    "matchLine ls' = matchLine ?ls0 @ z"
    unfolding extends_def by blast
  then have "matchStr1 ls' = matchStr1 ls @ ''('' @ x" "matchStr2 ls' = matchStr2 ls @ ''('' @ y"
    "matchLine ls' = matchLine ls @ '' '' @ z"
    by (simp_all add: append1_def append2_def appendL_def)
  then show ?thesis using r unfolding completeFront_def by blast
qed

lemma completeBack_shape:
  assumes "0 \<le> i" "0 \<le> j"
  shows "\<exists>ls' x y z. completeBack st i j ls = Inr ls' \<and>
     matchStr1 ls' = matchStr1 ls @ '')'' @ x \<and> matchStr2 ls' = matchStr2 ls @ '')'' @ y \<and>
     matchLine ls' = matchLine ls @ '' '' @ z"
proof -
  let ?ls0 = "appendL CHR '' '' (append2 CHR '')'' (append1 CHR '')'' ls))"
  from completeBack_loop_total[OF assms, of st ?ls0]
  obtain ls' where r: "completeBack_loop st i j ?ls0 = Inr ls'"
    and e: "extends ?ls0 ls'" by auto
  from e obtain x y z where "matchStr1 ls' = matchStr1 ?ls0 @ x" "matchStr2 ls' = matchStr2 ?ls0 @ y"
    "matchLine ls' = matchLine ?ls0 @ z"
    unfolding extends_def by blast
  then have "matchStr1 ls' = matchStr1 ls @ '')'' @ x" "matchStr2 ls' = matchStr2 ls @ '')'' @ y"
    "matchLine ls' = matchLine ls @ '' '' @ z"
    by (simp_all add: append1_def append2_def appendL_def)
  then show ?thesis using r unfolding completeBack_def by blast
qed

lemma traceback_finish_shape:
  assumes "getMaxCoord st = Inr (i, j)" "a < length (seq2 st)" "b < length (seq1 st)"
  shows "\<exists>L. traceback_finish st (int a, int b, ls) = Inr L \<and> framed (reverse ls) L"
proof -
  from completeFront_shape[OF assms(2,3), of ls]
  obtain ls1 x y z where f: "completeFront st (int a) (int b) ls = Inr ls1"
    and s1: "matchStr1 ls1 = matchStr1 ls @ ''('' @ x" "matchStr2 ls1 = matchStr2 ls @ ''('' @ y"
      "matchLine ls1 = matchLine ls @ '' '' @ z"
    by blast
  have "0 \<le> int i + 1" "0 \<le> int j + 1" by simp_all
  from completeBack_shape[OF this, of st "reverse ls1"]
  obtain L x' y' z' where b: "completeBack st (int i + 1) (int j + 1) (reverse ls1) = Inr L"
    and s2: "matchStr1 L = matchStr1 (reverse ls1) @ '')'' @ x'"
      "matchStr2 L = matchStr2 (reverse ls1) @ '')'' @ y'"
      "matchLine L = matchLine (reverse ls1) @ '' '' @ z'"
    by blast
  have r: "traceback_finish st (int a, int b, ls) = Inr L"
    unfolding traceback_finish_def prod.case f bindE_Inr Let_def assms(1) b ..
  have "matchStr1 L = rev x @ ''('' @ matchStr1 (reverse ls) @ '')'' @ x'"
    "matchStr2 L = rev y @ ''('' @ matchStr2 (reverse ls) @ '')'' @ y'"
    "matchLine L = rev z @ '' '' @ matchLine (reverse ls) @ '' '' @ z'"
    using s1 s2 by (simp_all add: reverse_def)
  then have "framed (reverse ls) L" unfolding framed_def by blast
  with r show ?thesis by blast
qed

lemma traceback_total:
  assumes "filled v st"
  shows "\<exists>A L. aligned_region st = Some (Inr A) \<and> traceback st x y = Some (Inr L) \<and> framed A L"
proof -
  from traceback_start_filled[OF assms]
  obtain i j a b ls where c: "getMaxCoord st = Inr (i, j)"
    and ij: "i < length (seq2 st)" "j < length (seq1 st)"
    and s: "traceback_start st = Some (Inr (int a, int b, ls))" and ab: "a \<le> i" "b \<le> j"
    by blast
  have "a < length (seq2 st)" "b < length (seq1 st)" using ij ab by simp_all
  from traceback_finish_shape[OF c this, of ls]
  obtain L where L: "traceback_finish st (int a, int b, ls) = Inr L" "framed (reverse ls) L"
    by blast
  have "aligned_region st = Some (Inr (reverse ls))" unfolding aligned_region_def s by simp
  moreover have "traceback st x y = Some (Inr L)" unfolding traceback_def Let_def s using L by simp
  ultimately show ?thesis using L(2) by blast
qed

lemma traceback_ignores_arguments: "traceback st x y = traceback st x' y'"
  by (simp add: traceback_def Let_def)

lemma reverse_no_lines: "reverse no_lines = no_lines"
  by (simp add: reverse_def no_lines_def)

lemma getMaxCoord_first:
  assumes w: "wf st"
  shows "getMax st = Inr (global_max (F st)) \<and>
    (\<exists>i j. getMaxCoord st = Inr (i, j) \<and> i < length (F st) \<and> j < length (F st ! i) \<and>
       row_max (F st) i = global_max (F st) \<and>
       (\<forall>a<i. row_max (F st) a \<noteq> global_max (F st)) \<and>
       F st ! i ! j = row_max (F st) i \<and>
       (\<forall>b<j. F st ! i ! b \<noteq> row_max (F st) i))"
proof -
  let ?n = "length (seq2 st)" and ?m = "length (seq1 st)"
  have r: "rect ?n ?m (F st)" and n: "0 < ?n" and m: "0 < ?m"
    using w by (simp_all add: wf_def)
  define rm where "rm = map (\<lambda>r. Max (set r)) (F st)"
  define i where "i = pos_of rm (Max (set rm))"
  define j where "j = pos_of (F st ! i) (Max (set (F st ! i)))"
  have c: "getMaxCoord st = Inr (i, j)" and i: "i < ?n" and j: "j < ?m"
    using getMaxCoord_wf[OF w] unfolding rm_def i_def j_def by simp_all
  have lenF: "length (F st) = ?n" "length (F st ! i) = ?m" using r i by (simp_all add: rect_def)
  have rmne: "rm \<noteq> []" using lenF n by (auto simp: rm_def)
  have rowne: "F st ! i \<noteq> []" using lenF m by auto
  have g: "Max (set rm) = global_max (F st)"
    unfolding rm_def by (rule rect_row_max(1)[OF r n m])
  have rma: "rm ! a = row_max (F st) a" if "a < ?n" for a
    unfolding rm_def by (rule rect_row_max(2)[OF r n m that])
  have fi: "first_at rm i" unfolding i_def by (rule first_at_pos_of[OF rmne])
  have fj: "first_at (F st ! i) j" unfolding j_def by (rule first_at_pos_of[OF rowne])
  have 1: "row_max (F st) i = global_max (F st)"
    using fi rma[OF i] g by (simp add: first_at_def)
  have 2: "\<forall>a<i. row_max (F st) a \<noteq> global_max (F st)"
  proof (intro allI impI)
    fix a assume a: "a < i"
    then have "rm ! a \<noteq> Max (set rm)" using fi by (simp add: first_at_def)
    moreover have "a < ?n" using a i by simp
    ultimately show "row_max (F st) a \<noteq> global_max (F st)" using rma g by simp
  qed
  have 3: "F st ! i ! j = row_max (F st) i" "\<forall>b<j. F st ! i ! b \<noteq> row_max (F st) i"
    using fj by (simp_all add: first_at_def row_max_def)
  have "getMax st = Inr (global_max (F st))"
    unfolding global_max_def by (rule getMax_wf[OF w])
  then show ?thesis using c i j lenF 1 2 3 by auto
qed

subsection \<open>Sequences of length 0\<close>

lemma fill_rows_one_column: "length (seq1 st) = 1 \<Longrightarrow> fill_rows v rows st = Inr st"
  by (induction rows) simp_all

lemma fillMatrix_empty_seq1: "fillMatrix v (init sc [] s2 og eg) = Inr (init sc [] s2 og eg)"
  by (simp add: fillMatrix_def fill_rows_one_column)

lemma fillMatrix_empty_seq2: "fillMatrix v (init sc s1 [] og eg) = Inr (init sc s1 [] og eg)"
  by (simp add: fillMatrix_def)

lemma init_frames:
  "F (init sc s1 s2 og eg) = replicate (Suc (length s2)) (replicate (Suc (length s1)) 0)"
  "M (init sc s1 s2 og eg) = replicate (Suc (length s2)) (replicate (Suc (length s1)) 0)"
  "Ix (init sc s1 s2 og eg) = replicate (Suc (length s2)) (replicate (Suc (length s1)) 0)"
  "Iy (init sc s1 s2 og eg) = replicate (Suc (length s2)) (replicate (Suc (length s1)) 0)"
  "TM (init sc s1 s2 og eg) = replicate (Suc (length s2)) (replicate (Suc (length s1)) 0)"
  "TIx (init sc s1 s2 og eg) = replicate (Suc (length s2)) (replicate (Suc (length s1)) 0)"
  "TIy (init sc s1 s2 og eg) = replicate (Suc (length s2)) (replicate (Suc (length s1)) 0)"
  by (simp_all add: init_def Let_def zeros_def)

lemma fresh_getMax: "getMax (init sc s1 s2 og eg) = Inr 0"
proof -
  have "set (concat (F (init sc s1 s2 og eg))) = {0}"
    unfolding init_frames by (simp del: replicate.simps add: set_replicate_conv_if)
  then show ?thesis using getMax_wf[OF wf_init, of sc s1 s2 og eg] by simp
qed

lemma fresh_aligned_region:
  assumes "fillMatrix v (init sc s1 s2 og eg) = Inr (init sc s1 s2 og eg)"
  shows "aligned_region (init sc s1 s2 og eg) = Some (Inr no_lines)"
    and "\<exists>L. traceback (init sc s1 s2 og eg) x y = Some (Inr L)"
proof -
  let ?st = "init sc s1 s2 og eg"
  have f: "filled v ?st" by (rule fillMatrix_filled(1)[OF assms])
  from traceback_start_filled[OF f]
  obtain i j where ij: "i < length (seq2 ?st)" "j < length (seq1 ?st)"
    and s: "traceback_start ?st = traceback_loop ?st 0 (int i) (int j) (M ?st ! i ! j) no_lines"
    by blast
  have "zero_at ?st i j" by (rule zero_at_init) (use ij in simp_all)
  then have "M ?st ! i ! j = 0" by (simp add: zero_at_def)
  then show "aligned_region ?st = Some (Inr no_lines)"
    unfolding aligned_region_def s by (simp add: traceback_loop_stop reverse_no_lines)
  show "\<exists>L. traceback ?st x y = Some (Inr L)"
    using traceback_total[OF f, of x y] by blast
qed

lemma empty_traceback:
  "traceback (init sc [] [] og eg) x y =
     Some (Inr \<lparr>matchStr1 = ''()'', matchStr2 = ''()'', matchLine = ''  ''\<rparr>)"
proof -
  let ?st = "init sc [] [] og eg"
  have c: "getMaxCoord ?st = Inr (0, 0)"
    by (simp add: getMaxCoord_def init_frames frame_max_axis1_def series_max_def argmax_def
        py_index_def py_pos_def)
  have m: "iat (M ?st) 0 0 = Inr 0"
    by (simp add: iat_def init_frames py_pos_def)
  have s: "traceback_start ?st = Some (Inr (0, 0, no_lines))"
    by (simp add: traceback_start_def c m traceback_loop_stop)
  have f: "completeFront ?st 0 0 no_lines
      = Inr \<lparr>matchStr1 = ''('', matchStr2 = ''('', matchLine = '' ''\<rparr>"
    by (simp add: completeFront_def completeFront_loop_stop append1_def append2_def appendL_def
        no_lines_def)
  have b: "completeBack ?st 1 1 \<lparr>matchStr1 = ''('', matchStr2 = ''('', matchLine = '' ''\<rparr>
      = Inr \<lparr>matchStr1 = ''()'', matchStr2 = ''()'', matchLine = ''  ''\<rparr>"
    by (simp add: completeBack_def completeBack_loop_stop append1_def append2_def appendL_def)
  have "traceback_finish ?st (0, 0, no_lines)
      = Inr \<lparr>matchStr1 = ''()'', matchStr2 = ''()'', matchLine = ''  ''\<rparr>"
    by (simp add: traceback_finish_def f c reverse_def b)
  then show ?thesis by (simp add: traceback_def s)
qed

subsection \<open>A sequence against itself\<close>

lemma self_scores_total: "self_scores sc s ms \<Longrightarrow> \<forall>a\<in>set s. \<forall>b\<in>set s. sc a b \<noteq> None"
  unfolding self_scores_def by (metis option.distinct(1))

lemma self_scores_range:
  assumes "self_scores sc s ms" "a \<in> set s" "b \<in> set s" "sc a b = Some w"
  shows "w \<le> ms" and "- (2 ^ 63) \<le> w"
proof -
  have "w \<le> ms \<and> - (2 ^ 63) \<le> w"
  proof (cases "a = b")
    case True
    then have "w = ms" "0 < ms" using assms by (auto simp: self_scores_def)
    then show ?thesis by simp
  next
    case False
    then obtain w' where "sc a b = Some w'" "- (2 ^ 63) \<le> w'" "w' \<le> 0"
      using assms(1-3) unfolding self_scores_def by blast
    then show ?thesis using assms(1,4) by (simp add: self_scores_def)
  qed
  then show "w \<le> ms" and "- (2 ^ 63) \<le> w" by simp_all
qed

lemma self_scores_limit:
  assumes "self_scores sc s ms" "k \<le> length s"
  shows "ms * int k < 2 ^ 63" and "0 \<le> ms * int k"
proof -
  have ms: "0 < ms" and l: "int (length s) * ms < 2 ^ 63" using assms(1) by (simp_all add: self_scores_def)
  have "ms * int k \<le> ms * int (length s)" using ms assms(2) by (intro mult_left_mono) simp_all
  then show "ms * int k < 2 ^ 63" using l by (simp add: mult.commute)
  show "0 \<le> ms * int k" using ms by simp
qed

lemma Max_list_le: "xs \<noteq> [] \<Longrightarrow> (\<And>x. x \<in> set xs \<Longrightarrow> x \<le> B) \<Longrightarrow> Max (set xs) \<le> B"
  by simp

lemma filled_cell:
  "filled v st \<Longrightarrow> Suc a < length (seq2 st) \<Longrightarrow> Suc b < length (seq1 st) \<Longrightarrow>
   cell_ok v st (Suc a) (Suc b)"
  by (simp add: filled_def)

lemma wrap_sum:
  assumes "0 \<le> x" "x \<le> C" "- (2 ^ 63) \<le> w" "w \<le> d" "C + d \<le> B" "B < 2 ^ 63"
  shows "wrap64 (x + w) = x + w" and "wrap64 (x + w) \<le> B"
proof -
  have "in_int64 (x + w)" using assms by (simp add: in_int64_def)
  then show 1: "wrap64 (x + w) = x + w" by (rule wrap64_id)
  show "wrap64 (x + w) \<le> B" unfolding 1 using assms by simp
qed

lemma cross_le:
  assumes "0 \<le> x" "x \<le> B" "- (2 ^ 63) \<le> og \<and> og \<le> 0" "B < 2 ^ 63"
  shows "cross v x og \<le> B"
proof (cases v)
  case Main_py
  have "wrap64 (x + og) \<le> B"
    by (rule wrap_sum(2)[where C = B and d = 0]) (use assms in simp_all)
  then show ?thesis using Main_py by simp
next
  case Main_2_py
  then show ?thesis using assms(1,2) by simp
qed

lemma self_bound:
  assumes fill: "fillMatrix v (init sc s s og eg) = Inr st"
    and sc: "self_scores sc s ms"
    and og: "- (2 ^ 63) \<le> og \<and> og \<le> 0" and eg: "- (2 ^ 63) \<le> eg \<and> eg \<le> 0"
  shows "a \<le> length s \<Longrightarrow> b \<le> length s \<Longrightarrow>
     M st ! a ! b \<le> ms * int (min a b) \<and> Ix st ! a ! b \<le> ms * int (min a b) \<and>
     Iy st ! a ! b \<le> ms * int (min a b)"
proof (induction "a + b" arbitrary: a b rule: less_induct)
  case less
  note f = fillMatrix_filled(1)[OF fill]
  note fld = filled_fields[OF fill]
  have ms: "0 < ms" using sc by (simp add: self_scores_def)
  have lt: "a < length (seq2 st)" "b < length (seq1 st)" using less.prems fld by simp_all
  have B0: "0 \<le> ms * int (min a b)" using ms by simp
  show ?case
  proof (cases "a = 0 \<or> b = 0")
    case True
    from filled_border[OF f lt True] B0 show ?thesis by simp
  next
    case False
    then obtain a0 b0 where ab: "a = Suc a0" "b = Suc b0" by (cases a; cases b; simp)
    have lt': "a0 < length s" "b0 < length s" using less.prems ab by simp_all
    have ok: "cell_ok v st (Suc a0) (Suc b0)"
      by (rule filled_cell[OF f]) (use lt ab in simp_all)
    then obtain w where w: "score st (seq1 st ! Suc b0) (seq2 st ! Suc a0) = Some w"
      and m: "M st ! Suc a0 ! Suc b0 = Max (set (terms_M st (Suc a0) (Suc b0) w))"
      unfolding cell_ok_def by blast
    have x: "Ix st ! Suc a0 ! Suc b0 = Max (set (terms_Ix v st (Suc a0) (Suc b0)))"
      and y: "Iy st ! Suc a0 ! Suc b0 = Max (set (terms_Iy v st (Suc a0) (Suc b0)))"
      using ok unfolding cell_ok_def by blast+
    have scw: "sc (s ! b0) (s ! a0) = Some w" using w fld by simp
    note wr = self_scores_range[OF sc nth_mem[OF lt'(2)] nth_mem[OF lt'(1)] scw]
    let ?B = "ms * int (min a b)"
    have BL: "?B < 2 ^ 63"
      by (rule self_scores_limit(1)[OF sc]) (use less.prems in simp)
    have Bd: "ms * int (min a0 b0) + ms \<le> ?B" unfolding ab by (simp add: algebra_simps)
    have Bu: "ms * int (min a0 (Suc b0)) + 0 \<le> ?B" unfolding ab
      using ms by (simp add: mult_left_mono)
    have Bl: "ms * int (min (Suc a0) b0) + 0 \<le> ?B" unfolding ab
      using ms by (simp add: mult_left_mono)
    have d: "M st ! a0 ! b0 \<le> ms * int (min a0 b0) \<and> Ix st ! a0 ! b0 \<le> ms * int (min a0 b0) \<and>
        Iy st ! a0 ! b0 \<le> ms * int (min a0 b0)"
      by (rule less.hyps) (use less.prems ab in simp_all)
    have u: "M st ! a0 ! Suc b0 \<le> ms * int (min a0 (Suc b0)) \<and>
        Ix st ! a0 ! Suc b0 \<le> ms * int (min a0 (Suc b0)) \<and>
        Iy st ! a0 ! Suc b0 \<le> ms * int (min a0 (Suc b0))"
      by (rule less.hyps) (use less.prems ab in simp_all)
    have l: "M st ! Suc a0 ! b0 \<le> ms * int (min (Suc a0) b0) \<and>
        Ix st ! Suc a0 ! b0 \<le> ms * int (min (Suc a0) b0) \<and>
        Iy st ! Suc a0 ! b0 \<le> ms * int (min (Suc a0) b0)"
      by (rule less.hyps) (use less.prems ab in simp_all)
    have nd: "0 \<le> M st ! a0 ! b0 \<and> 0 \<le> Ix st ! a0 ! b0 \<and> 0 \<le> Iy st ! a0 ! b0 \<and> 0 \<le> F st ! a0 ! b0"
      by (rule filled_nonneg[OF f]) (use lt ab in simp_all)
    have nu: "0 \<le> M st ! a0 ! Suc b0 \<and> 0 \<le> Ix st ! a0 ! Suc b0 \<and> 0 \<le> Iy st ! a0 ! Suc b0
        \<and> 0 \<le> F st ! a0 ! Suc b0"
      by (rule filled_nonneg[OF f]) (use lt ab in simp_all)
    have nl: "0 \<le> M st ! Suc a0 ! b0 \<and> 0 \<le> Ix st ! Suc a0 ! b0 \<and> 0 \<le> Iy st ! Suc a0 ! b0
        \<and> 0 \<le> F st ! Suc a0 ! b0"
      by (rule filled_nonneg[OF f]) (use lt ab in simp_all)
    have og': "- (2 ^ 63) \<le> openGap st \<and> openGap st \<le> 0" using og fld by simp
    have eg': "- (2 ^ 63) \<le> extGap st \<and> extGap st \<le> 0" using eg fld by simp
    have "M st ! Suc a0 ! Suc b0 \<le> ?B"
      unfolding m
    proof (rule Max_list_le)
      show "terms_M st (Suc a0) (Suc b0) w \<noteq> []" by (simp add: terms_M_def)
      have "wrap64 (M st ! a0 ! b0 + w) \<le> ?B"
        by (rule wrap_sum(2)[OF _ _ wr(2) wr(1) Bd BL]) (use d nd in simp_all)
      moreover have "wrap64 (Ix st ! a0 ! b0 + w) \<le> ?B"
        by (rule wrap_sum(2)[OF _ _ wr(2) wr(1) Bd BL]) (use d nd in simp_all)
      moreover have "wrap64 (Iy st ! a0 ! b0 + w) \<le> ?B"
        by (rule wrap_sum(2)[OF _ _ wr(2) wr(1) Bd BL]) (use d nd in simp_all)
      moreover fix t assume "t \<in> set (terms_M st (Suc a0) (Suc b0) w)"
      ultimately show "t \<le> ?B" using B0 by (auto simp: terms_M_def add64_def)
    qed
    moreover have "Ix st ! Suc a0 ! Suc b0 \<le> ?B"
      unfolding x
    proof (rule Max_list_le)
      show "terms_Ix v st (Suc a0) (Suc b0) \<noteq> []" by (simp add: terms_Ix_def)
      have "wrap64 (M st ! a0 ! Suc b0 + openGap st) \<le> ?B"
        by (rule wrap_sum(2)[OF _ _ _ _ Bu BL]) (use u nu og' in simp_all)
      moreover have "wrap64 (Ix st ! a0 ! Suc b0 + extGap st) \<le> ?B"
        by (rule wrap_sum(2)[OF _ _ _ _ Bu BL]) (use u nu eg' in simp_all)
      moreover have "cross v (Iy st ! a0 ! Suc b0) (openGap st) \<le> ?B"
        by (rule cross_le[OF _ _ og' BL]) (use u nu Bu in simp_all)
      moreover fix t assume "t \<in> set (terms_Ix v st (Suc a0) (Suc b0))"
      ultimately show "t \<le> ?B" using B0 by (auto simp: terms_Ix_def)
    qed
    moreover have "Iy st ! Suc a0 ! Suc b0 \<le> ?B"
      unfolding y
    proof (rule Max_list_le)
      show "terms_Iy v st (Suc a0) (Suc b0) \<noteq> []" by (simp add: terms_Iy_def)
      have "wrap64 (M st ! Suc a0 ! b0 + openGap st) \<le> ?B"
        by (rule wrap_sum(2)[OF _ _ _ _ Bl BL]) (use l nl og' in simp_all)
      moreover have "wrap64 (Iy st ! Suc a0 ! b0 + extGap st) \<le> ?B"
        by (rule wrap_sum(2)[OF _ _ _ _ Bl BL]) (use l nl eg' in simp_all)
      moreover have "cross v (Ix st ! Suc a0 ! b0) (openGap st) \<le> ?B"
        by (rule cross_le[OF _ _ og' BL]) (use l nl Bl in simp_all)
      moreover fix t assume "t \<in> set (terms_Iy v st (Suc a0) (Suc b0))"
      ultimately show "t \<le> ?B" using B0 by (auto simp: terms_Iy_def)
    qed
    ultimately show ?thesis unfolding ab by simp
  qed
qed

lemma pos_of_head: "pos_of (x # xs) x = 0"
  by simp

lemma Max4_first: "q \<le> p \<Longrightarrow> r \<le> p \<Longrightarrow> t \<le> p \<Longrightarrow> Max (set [p, q, r, t]) = (p::int)"
  by (simp add: max_def)

lemma self_diag:
  assumes fill: "fillMatrix v (init sc s s og eg) = Inr st"
    and sc: "self_scores sc s ms"
    and og: "- (2 ^ 63) \<le> og \<and> og \<le> 0" and eg: "- (2 ^ 63) \<le> eg \<and> eg \<le> 0"
  shows "a \<le> length s \<Longrightarrow> M st ! a ! a = ms * int a \<and> (1 \<le> a \<longrightarrow> TM st ! a ! a = 0)"
proof (induction a)
  case 0
  note f = fillMatrix_filled(1)[OF fill]
  note fld = filled_fields[OF fill]
  have "M st ! 0 ! 0 = 0" by (rule filled_border(1)[OF f]) (simp_all add: fld)
  then show ?case by simp
next
  case (Suc a)
  note f = fillMatrix_filled(1)[OF fill]
  note fld = filled_fields[OF fill]
  have a: "a < length s" "a \<le> length s" using Suc.prems by simp_all
  have ih: "M st ! a ! a = ms * int a" using Suc.IH a by simp
  have ok: "cell_ok v st (Suc a) (Suc a)"
    by (rule filled_cell[OF f]) (use a fld in simp_all)
  then obtain w where w: "score st (seq1 st ! Suc a) (seq2 st ! Suc a) = Some w"
    and m: "M st ! Suc a ! Suc a = Max (set (terms_M st (Suc a) (Suc a) w))"
    and tm: "TM st ! Suc a ! Suc a
        = pos_of (terms_M st (Suc a) (Suc a) w) (Max (set (terms_M st (Suc a) (Suc a) w)))"
    unfolding cell_ok_def by blast
  have "sc (s ! a) (s ! a) = Some ms" using sc nth_mem[OF a(1)] by (simp add: self_scores_def)
  then have wms: "w = ms" using w fld by simp
  have ms: "0 < ms" using sc by (simp add: self_scores_def)
  have b: "Ix st ! a ! a \<le> ms * int a" "Iy st ! a ! a \<le> ms * int a"
    using self_bound[OF fill sc og eg a(2) a(2)] by simp_all
  have nn: "0 \<le> M st ! a ! a \<and> 0 \<le> Ix st ! a ! a \<and> 0 \<le> Iy st ! a ! a \<and> 0 \<le> F st ! a ! a"
    by (rule filled_nonneg[OF f]) (use a fld in simp_all)
  let ?top = "ms * int a + ms"
  have top: "?top = ms * int (Suc a)" by (simp add: algebra_simps)
  have BL: "?top < 2 ^ 63" unfolding top by (rule self_scores_limit(1)[OF sc Suc.prems])
  have lo: "- (2 ^ 63) \<le> ms" using ms by simp
  have t1: "add64 (M st ! a ! a) ms = ?top"
    unfolding add64_def ih[symmetric]
    by (rule wrap_sum(1)[OF _ order_refl lo order_refl order_refl]) (use nn BL ih in simp_all)
  have t2: "add64 (Ix st ! a ! a) ms \<le> ?top"
    unfolding add64_def
    by (rule wrap_sum(2)[OF _ b(1) lo order_refl order_refl BL]) (use nn in simp)
  have t3: "add64 (Iy st ! a ! a) ms \<le> ?top"
    unfolding add64_def
    by (rule wrap_sum(2)[OF _ b(2) lo order_refl order_refl BL]) (use nn in simp)
  have t: "terms_M st (Suc a) (Suc a) w
      = [?top, add64 (Ix st ! a ! a) ms, add64 (Iy st ! a ! a) ms, 0]"
    by (simp add: terms_M_def wms t1)
  have "0 \<le> ms * int a" using ms by simp
  then have "0 \<le> ?top" using ms by simp
  then have mx: "Max (set (terms_M st (Suc a) (Suc a) w)) = ?top"
    unfolding t using t2 t3 by (intro Max4_first) simp_all
  have "M st ! Suc a ! Suc a = ms * int (Suc a)"
    unfolding m mx by (simp add: algebra_simps)
  moreover have "TM st ! Suc a ! Suc a = 0"
    unfolding tm mx unfolding t by (rule pos_of_head)
  ultimately show ?case by simp
qed

lemma cell_le_global_max:
  assumes "rect n m fr" "a < n" "b < m"
  shows "fr ! a ! b \<le> global_max fr"
proof -
  have "fr ! a \<in> set fr" using assms by (simp add: rect_def)
  moreover have "fr ! a ! b \<in> set (fr ! a)" using assms by (simp add: rect_def)
  ultimately have "fr ! a ! b \<in> set (concat fr)" by auto
  then show ?thesis unfolding global_max_def by (rule Max_list_ge)
qed

lemma row_max_le:
  assumes "rect n m fr" "a < n" "0 < m" "\<And>b. b < m \<Longrightarrow> fr ! a ! b \<le> B"
  shows "row_max fr a \<le> B"
  unfolding row_max_def
proof (rule Max_list_le)
  have len: "length (fr ! a) = m" using assms by (simp add: rect_def)
  then show "fr ! a \<noteq> []" using assms(3) by auto
  fix x assume "x \<in> set (fr ! a)"
  then obtain b where "b < length (fr ! a)" "fr ! a ! b = x" by (meson in_set_conv_nth)
  then show "x \<le> B" using assms(4)[of b] len by simp
qed

lemma self_F_bound:
  assumes fill: "fillMatrix v (init sc s s og eg) = Inr st"
    and sc: "self_scores sc s ms"
    and og: "- (2 ^ 63) \<le> og \<and> og \<le> 0" and eg: "- (2 ^ 63) \<le> eg \<and> eg \<le> 0"
    and "a \<le> length s" "b \<le> length s"
  shows "F st ! a ! b \<le> ms * int (min a b)"
proof -
  note f = fillMatrix_filled(1)[OF fill]
  note fld = filled_fields[OF fill]
  have "F st ! a ! b = max (M st ! a ! b) (max (Ix st ! a ! b) (Iy st ! a ! b))"
    by (rule filled_F_max[OF f]) (use assms(5,6) fld in simp_all)
  then show ?thesis using self_bound[OF fill sc og eg assms(5,6)] by simp
qed

lemma self_best:
  assumes fill: "fillMatrix v (init sc s s og eg) = Inr st"
    and sc: "self_scores sc s ms"
    and og: "- (2 ^ 63) \<le> og \<and> og \<le> 0" and eg: "- (2 ^ 63) \<le> eg \<and> eg \<le> 0"
  shows "getMax st = Inr (int (length s) * ms)"
    and "getMaxCoord st = Inr (length s, length s)"
proof -
  let ?n = "length s"
  note f = fillMatrix_filled(1)[OF fill]
  note fld = filled_fields[OF fill]
  have w: "wf st" by (rule filled_wf[OF f])
  have ms: "0 < ms" using sc by (simp add: self_scores_def)
  have r: "rect (Suc ?n) (Suc ?n) (F st)" using w fld by (simp add: wf_def)
  from getMaxCoord_first[OF w]
  obtain i j where gm: "getMax st = Inr (global_max (F st))"
    and c: "getMaxCoord st = Inr (i, j)" and i: "i < length (F st)" and j: "j < length (F st ! i)"
    and ri: "row_max (F st) i = global_max (F st)" and fj: "F st ! i ! j = row_max (F st) i"
    by blast
  have i': "i \<le> ?n" using i r by (simp add: rect_def)
  have j': "j \<le> ?n" using i j r by (simp add: rect_def)
  have "M st ! ?n ! ?n = ms * int ?n" using self_diag[OF fill sc og eg, of ?n] by simp
  moreover have "M st ! ?n ! ?n \<le> F st ! ?n ! ?n"
    using filled_F_max[OF f, of ?n ?n] fld by simp
  moreover have "F st ! ?n ! ?n \<le> global_max (F st)"
    by (rule cell_le_global_max[OF r]) simp_all
  ultimately have lo: "ms * int ?n \<le> global_max (F st)" by simp
  have fb: "F st ! i ! j \<le> ms * int (min i j)"
    by (rule self_F_bound[OF fill sc og eg i' j'])
  have "ms * int ?n \<le> ms * int (min i j)" using lo ri fj fb by simp
  then have "int ?n \<le> int (min i j)" using ms by simp
  then have ij: "i = ?n" "j = ?n" using i' j' by simp_all
  show "getMaxCoord st = Inr (?n, ?n)" using c ij by simp
  have "global_max (F st) = ms * int ?n" using lo ri fj fb ij by simp
  then show "getMax st = Inr (int ?n * ms)" using gm by (simp add: mult.commute)
qed

lemma self_loop:
  assumes fill: "fillMatrix v (init sc s s og eg) = Inr st"
    and sc: "self_scores sc s ms"
    and og: "- (2 ^ 63) \<le> og \<and> og \<le> 0" and eg: "- (2 ^ 63) \<le> eg \<and> eg \<le> 0"
  shows "a \<le> length s \<Longrightarrow>
     traceback_loop st 0 (int a) (int a) (M st ! a ! a) ls =
       Some (Inr (0, 0, \<lparr>matchStr1 = matchStr1 ls @ rev (take a s),
                          matchStr2 = matchStr2 ls @ rev (take a s),
                          matchLine = matchLine ls @ replicate a CHR ''|''\<rparr>))"
proof (induction a arbitrary: ls)
  case 0
  note f = fillMatrix_filled(1)[OF fill]
  note fld = filled_fields[OF fill]
  have "M st ! 0 ! 0 = 0" by (rule filled_border(1)[OF f]) (simp_all add: fld)
  then show ?case by (simp add: traceback_loop_stop)
next
  case (Suc a)
  note f = fillMatrix_filled(1)[OF fill]
  note fld = filled_fields[OF fill]
  have w: "wf st" by (rule filled_wf[OF f])
  have a: "a < length s" "a \<le> length s" using Suc.prems by simp_all
  have ms: "0 < ms" using sc by (simp add: self_scores_def)
  have d: "M st ! Suc a ! Suc a = ms * int (Suc a)" "TM st ! Suc a ! Suc a = 0"
    using self_diag[OF fill sc og eg Suc.prems] by simp_all
  have nz: "M st ! Suc a ! Suc a \<noteq> 0" unfolding d using ms by simp
  have lt: "Suc a < length (seq2 st)" "Suc a < length (seq1 st)" using a fld by simp_all
  let ?ls = "append2 (s ! a) (append1 (s ! a) (appendL CHR ''|'' ls))"
  have body: "traceback_body st 0 (int (Suc a)) (int (Suc a)) (M st ! Suc a ! Suc a) ls =
      Inr (0, int a, int a, M st ! a ! a, ?ls)"
    unfolding traceback_body_0[OF w lt] d using fld by simp
  have "traceback_loop st 0 (int (Suc a)) (int (Suc a)) (M st ! Suc a ! Suc a) ls =
      traceback_loop st 0 (int a) (int a) (M st ! a ! a) ?ls"
    by (rule traceback_loop_step[OF nz _ body]) simp
  also have "\<dots> = Some (Inr (0, 0, \<lparr>matchStr1 = matchStr1 ?ls @ rev (take a s),
                          matchStr2 = matchStr2 ?ls @ rev (take a s),
                          matchLine = matchLine ?ls @ replicate a CHR ''|''\<rparr>))"
    by (rule Suc.IH[OF a(2)])
  also have "\<dots> = Some (Inr (0, 0, \<lparr>matchStr1 = matchStr1 ls @ rev (take (Suc a) s),
                          matchStr2 = matchStr2 ls @ rev (take (Suc a) s),
                          matchLine = matchLine ls @ replicate (Suc a) CHR ''|''\<rparr>))"
    using a(1) by (simp add: append1_def append2_def appendL_def take_Suc_conv_app_nth
        replicate_append_same)
  finally show ?case .
qed

lemma self_traceback:
  assumes fill: "fillMatrix v (init sc s s og eg) = Inr st"
    and sc: "self_scores sc s ms"
    and og: "- (2 ^ 63) \<le> og \<and> og \<le> 0" and eg: "- (2 ^ 63) \<le> eg \<and> eg \<le> 0"
  shows "aligned_region st =
       Some (Inr \<lparr>matchStr1 = s, matchStr2 = s, matchLine = replicate (length s) CHR ''|''\<rparr>)"
    and "traceback st x y =
       Some (Inr \<lparr>matchStr1 = ''('' @ s @ '')'', matchStr2 = ''('' @ s @ '')'',
                   matchLine = '' '' @ replicate (length s) CHR ''|'' @ '' ''\<rparr>)"
proof -
  let ?n = "length s"
  note f = fillMatrix_filled(1)[OF fill]
  note fld = filled_fields[OF fill]
  have w: "wf st" by (rule filled_wf[OF f])
  have c: "getMaxCoord st = Inr (?n, ?n)" by (rule self_best(2)[OF fill sc og eg])
  have r: "rect (length (seq2 st)) (length (seq1 st)) (M st)" using w by (simp add: wf_def)
  have rd: "iat (M st) (int ?n) (int ?n) = Inr (M st ! ?n ! ?n)"
    by (rule iat_nat[OF r]) (simp_all add: fld)
  let ?ls = "\<lparr>matchStr1 = rev s, matchStr2 = rev s, matchLine = replicate ?n CHR ''|''\<rparr>"
  have "traceback_start st = traceback_loop st 0 (int ?n) (int ?n) (M st ! ?n ! ?n) no_lines"
    by (simp add: traceback_start_def c rd)
  also have "\<dots> = Some (Inr (0, 0, ?ls))"
    using self_loop[OF fill sc og eg, of ?n no_lines] by (simp add: no_lines_def)
  finally have s: "traceback_start st = Some (Inr (0, 0, ?ls))" .
  show "aligned_region st =
       Some (Inr \<lparr>matchStr1 = s, matchStr2 = s, matchLine = replicate ?n CHR ''|''\<rparr>)"
    unfolding aligned_region_def s by (simp add: reverse_def)
  let ?l1 = "\<lparr>matchStr1 = rev s @ ''('', matchStr2 = rev s @ ''('',
      matchLine = replicate ?n CHR ''|'' @ '' ''\<rparr>"
  have fr: "completeFront st 0 0 ?ls = Inr ?l1"
    by (simp add: completeFront_def completeFront_loop_stop append1_def append2_def appendL_def)
  let ?l2 = "\<lparr>matchStr1 = ''('' @ s, matchStr2 = ''('' @ s,
      matchLine = '' '' @ replicate ?n CHR ''|''\<rparr>"
  have rv: "reverse ?l1 = ?l2" by (simp add: reverse_def)
  have bk: "completeBack st (int ?n + 1) (int ?n + 1) ?l2 =
      Inr \<lparr>matchStr1 = ''('' @ s @ '')'', matchStr2 = ''('' @ s @ '')'',
            matchLine = '' '' @ replicate ?n CHR ''|'' @ '' ''\<rparr>"
    unfolding completeBack_def
    by (subst completeBack_loop_stop) (simp_all add: fld append1_def append2_def appendL_def)
  have "traceback_finish st (0, 0, ?ls) =
      Inr \<lparr>matchStr1 = ''('' @ s @ '')'', matchStr2 = ''('' @ s @ '')'',
            matchLine = '' '' @ replicate ?n CHR ''|'' @ '' ''\<rparr>"
    unfolding traceback_finish_def prod.case fr bindE_Inr Let_def rv c bk ..
  then show "traceback st x y =
       Some (Inr \<lparr>matchStr1 = ''('' @ s @ '')'', matchStr2 = ''('' @ s @ '')'',
                   matchLine = '' '' @ replicate ?n CHR ''|'' @ '' ''\<rparr>)"
    unfolding traceback_def Let_def s by simp
qed

lemma run_ACB_ADB_main:
  "best_score Main_py (flat_score 10 (- 100)) ''ACB'' ''ADB'' (- 1) (- 1) = Inr 18"
  by code_simp

lemma run_ACB_ADB_main_2:
  "best_score Main_2_py (flat_score 10 (- 100)) ''ACB'' ''ADB'' (- 1) (- 1) = Inr 10"
  by code_simp

section \<open>The claims\<close>

text \<open>
  C1, as stated: for "ACGT" against "AGT" with open -2, extend -1 and scores +2 / -1 the
  aligned region would read ACGT over A-GT, with a bar under each match and a space under
  the gap. It does not: the run below is the claim's input, and its aligned region is not
  the one the claim describes.
\<close>

theorem acgt_agt_region_is_not_gapped:
  "runSW_aligned Main_py (flat_score 2 (- 1)) ''ACGT'' ''AGT'' (- 2) (- 1) \<noteq>
     Some (Inr \<lparr>matchStr1 = ''ACGT'', matchStr2 = ''A-GT'', matchLine = ''| ||''\<rparr>)"
  by code_simp

text \<open>
  C1, amended: on that input the best score is 4, which is the score of the two matches G
  and T and also that of A, gap, G, T (2 - 2 + 2 + 2); the aligned region is GT over GT
  with a bar under both columns and no gap column, because the loop of traceback stops at
  the zero of M in row 1, column 2. The display lines are AC(GT) and " A(GT)".
\<close>

theorem acgt_agt_run:
  "runSW Main_py (flat_score 2 (- 1)) ''ACGT'' ''AGT'' (- 2) (- 1) =
     Some (Inr (4, \<lparr>matchStr1 = ''AC(GT)'', matchStr2 = '' A(GT)'', matchLine = ''   || ''\<rparr>))
   \<and> runSW_aligned Main_py (flat_score 2 (- 1)) ''ACGT'' ''AGT'' (- 2) (- 1) =
     Some (Inr \<lparr>matchStr1 = ''GT'', matchStr2 = ''GT'', matchLine = ''||''\<rparr>)"
  by code_simp

text \<open>
  C2: on every filled matrix the loop of traceback is entered in state 0 at the coordinate
  of getMaxCoord with the cell of M there as its first \<open>currVal\<close>; nothing looks at which of
  M, Ix, Iy holds the maximum of F. So where that cell of M is 0 the loop does not run and
  the aligned region is empty, whatever F holds there.
\<close>

theorem traceback_starts_in_match_state:
  assumes "fillMatrix v (init sc s1 s2 og eg) = Inr st"
  shows "\<exists>i j. getMaxCoord st = Inr (i, j) \<and>
     traceback_start st = traceback_loop st 0 (int i) (int j) (M st ! i ! j) no_lines \<and>
     (\<exists>r. traceback_start st = Some (Inr r) \<and> traceback st x y = Some (traceback_finish st r)) \<and>
     (M st ! i ! j = 0 \<longrightarrow> aligned_region st = Some (Inr no_lines))"
proof -
  from traceback_start_filled[OF fillMatrix_filled(1)[OF assms]]
  obtain i j a b ls where c: "getMaxCoord st = Inr (i, j)"
    and s: "traceback_start st = traceback_loop st 0 (int i) (int j) (M st ! i ! j) no_lines"
    and r: "traceback_start st = Some (Inr (int a, int b, ls))"
    by blast
  have "traceback st x y = Some (traceback_finish st (int a, int b, ls))"
    unfolding traceback_def Let_def r by simp
  moreover have "aligned_region st = Some (Inr no_lines)" if "M st ! i ! j = 0"
    unfolding aligned_region_def s that
    by (simp add: traceback_loop_stop reverse_no_lines)
  ultimately show ?thesis using c s r by blast
qed

theorem traceback_starts_in_match_state_witness:
  "\<exists>st. fillMatrix Main_py (init (flat_score (- 1) (- 1)) ''A'' ''A'' 5 (- 1)) = Inr st \<and>
     getMaxCoord st = Inr (1, 1) \<and> F st ! 1 ! 1 = 5 \<and> Ix st ! 1 ! 1 = 5 \<and>
     M st ! 1 ! 1 = 0 \<and> aligned_region st = Some (Inr no_lines) \<and>
     traceback st 0 0 = Some (Inr \<lparr>matchStr1 = ''A()'', matchStr2 = ''A()'', matchLine = ''   ''\<rparr>)"
proof -
  let ?r = "fillMatrix Main_py (init (flat_score (- 1) (- 1)) ''A'' ''A'' 5 (- 1))"
  obtain st where st: "?r = Inr st" using flat_score_total[OF int64_penalties(3) int64_penalties(2)] by blast
  have "map_sum id (\<lambda>st. (getMaxCoord st, F st ! 1 ! 1, Ix st ! 1 ! 1, M st ! 1 ! 1, traceback st 0 0)) ?r =
      Inr (Inr (1, 1), 5, 5, 0,
           Some (Inr \<lparr>matchStr1 = ''A()'', matchStr2 = ''A()'', matchLine = ''   ''\<rparr>))"
    by code_simp
  then have v: "getMaxCoord st = Inr (1, 1)" "F st ! 1 ! 1 = 5" "Ix st ! 1 ! 1 = 5" "M st ! 1 ! 1 = 0"
    "traceback st 0 0 = Some (Inr \<lparr>matchStr1 = ''A()'', matchStr2 = ''A()'', matchLine = ''   ''\<rparr>)"
    unfolding st by simp_all
  from traceback_starts_in_match_state[OF st, of 0 0] v(1,4)
  have "aligned_region st = Some (Inr no_lines)" by auto
  with v st show ?thesis by blast
qed

text \<open>
  C3: on every filled matrix getMax is the global maximum of F, and getMaxCoord is the
  pair \<open>(i, j)\<close> where \<open>i\<close> is the first row whose maximum is the global maximum and \<open>j\<close> the
  first column of row \<open>i\<close> that holds the maximum of that row.
\<close>

theorem getMaxCoord_first_row_then_first_column:
  assumes "fillMatrix v (init sc s1 s2 og eg) = Inr st"
  shows "getMax st = Inr (global_max (F st)) \<and>
    (\<exists>i j. getMaxCoord st = Inr (i, j) \<and> i < length (F st) \<and> j < length (F st ! i) \<and>
       row_max (F st) i = global_max (F st) \<and>
       (\<forall>a<i. row_max (F st) a \<noteq> global_max (F st)) \<and>
       F st ! i ! j = row_max (F st) i \<and>
       (\<forall>b<j. F st ! i ! b \<noteq> row_max (F st) i))"
  by (rule getMaxCoord_first[OF filled_wf[OF fillMatrix_filled(1)[OF assms]]])

theorem getMaxCoord_first_row_then_first_column_witness:
  "\<exists>st. fillMatrix Main_py (init (flat_score 2 (- 1)) ''AB'' ''BA'' (- 2) (- 1)) = Inr st \<and>
     F st = [[0, 0, 0], [0, 0, 2], [0, 2, 0]] \<and>
     getMax st = Inr 2 \<and> global_max (F st) = 2 \<and> getMaxCoord st = Inr (1, 2) \<and>
     row_max (F st) 1 = global_max (F st) \<and> row_max (F st) 0 \<noteq> global_max (F st) \<and>
     F st ! 1 ! 2 = row_max (F st) 1 \<and> F st ! 1 ! 0 \<noteq> row_max (F st) 1 \<and>
     F st ! 1 ! 1 \<noteq> row_max (F st) 1"
proof -
  let ?r = "fillMatrix Main_py (init (flat_score 2 (- 1)) ''AB'' ''BA'' (- 2) (- 1))"
  obtain st where st: "?r = Inr st" using flat_score_total[OF int64_penalties(1) int64_penalties(2)] by blast
  have "map_sum id (\<lambda>st. (F st, getMaxCoord st)) ?r = Inr ([[0, 0, 0], [0, 0, 2], [0, 2, 0]], Inr (1, 2))"
    by code_simp
  then have v: "F st = [[0, 0, 0], [0, 0, 2], [0, 2, 0]]" "getMaxCoord st = Inr (1, 2)"
    unfolding st by simp_all
  from getMaxCoord_first_row_then_first_column[OF st] v(2)
  have "getMax st = Inr (global_max (F st))" "row_max (F st) 1 = global_max (F st)"
    "\<forall>a<1. row_max (F st) a \<noteq> global_max (F st)"
    "F st ! 1 ! 2 = row_max (F st) 1" "\<forall>b<2. F st ! 1 ! b \<noteq> row_max (F st) 1"
    by auto
  moreover have "global_max (F st) = 2" unfolding v(1) global_max_def by simp
  ultimately show ?thesis using st v by (auto simp: numeral_2_eq_2)
qed

text \<open>
  C4: in each of the three recurrences of fillMatrix, in main.py and in main_2.py, the
  cell of the traceback matrix holds the first position, in the listed order of the four
  candidate terms, at which the maximum stands; this for every cell with \<open>i, j \<ge> 1\<close>. The
  terms are the 64-bit sums the program computes from the finished matrices, and the
  score cell is their maximum.
\<close>

theorem traceback_cells_record_first_maximum:
  assumes "fillMatrix v (init sc s1 s2 og eg) = Inr st"
    and "1 \<le> i" "i \<le> length s2" "1 \<le> j" "j \<le> length s1"
  shows "\<exists>s. sc (s1 ! (j - 1)) (s2 ! (i - 1)) = Some s \<and>
     openGap st = og \<and> extGap st = eg \<and>
     M st ! i ! j = Max (set (terms_M st i j s)) \<and> first_at (terms_M st i j s) (TM st ! i ! j) \<and>
     Ix st ! i ! j = Max (set (terms_Ix v st i j)) \<and> first_at (terms_Ix v st i j) (TIx st ! i ! j) \<and>
     Iy st ! i ! j = Max (set (terms_Iy v st i j)) \<and> first_at (terms_Iy v st i j) (TIy st ! i ! j)"
proof -
  note f = fillMatrix_filled(1)[OF assms(1)]
  note fld = filled_fields[OF assms(1)]
  have "i < length (seq2 st)" "j < length (seq1 st)" using assms(3,5) fld by simp_all
  then have ok: "cell_ok v st i j" using f assms(2,4) by (simp add: filled_def)
  then obtain s where s: "score st (seq1 st ! j) (seq2 st ! i) = Some s"
    and m: "M st ! i ! j = Max (set (terms_M st i j s))"
    and tm: "TM st ! i ! j = pos_of (terms_M st i j s) (Max (set (terms_M st i j s)))"
    unfolding cell_ok_def by blast
  have x: "Ix st ! i ! j = Max (set (terms_Ix v st i j))"
    and tx: "TIx st ! i ! j = pos_of (terms_Ix v st i j) (Max (set (terms_Ix v st i j)))"
    and y: "Iy st ! i ! j = Max (set (terms_Iy v st i j))"
    and ty: "TIy st ! i ! j = pos_of (terms_Iy v st i j) (Max (set (terms_Iy v st i j)))"
    using ok unfolding cell_ok_def by blast+
  have ne: "terms_M st i j s \<noteq> []" "terms_Ix v st i j \<noteq> []" "terms_Iy v st i j \<noteq> []"
    by (simp_all add: terms_M_def terms_Ix_def terms_Iy_def)
  have sym: "seq1 st ! j = s1 ! (j - 1)" "seq2 st ! i = s2 ! (i - 1)"
    using assms(2,4) fld by (cases j, simp, simp, cases i, simp, simp)
  have "sc (s1 ! (j - 1)) (s2 ! (i - 1)) = Some s" using s sym fld(1) by simp
  moreover have "first_at (terms_M st i j s) (TM st ! i ! j)"
    unfolding tm by (rule first_at_pos_of[OF ne(1)])
  moreover have "first_at (terms_Ix v st i j) (TIx st ! i ! j)"
    unfolding tx by (rule first_at_pos_of[OF ne(2)])
  moreover have "first_at (terms_Iy v st i j) (TIy st ! i ! j)"
    unfolding ty by (rule first_at_pos_of[OF ne(3)])
  ultimately show ?thesis using m x y fld(2,3) by blast
qed

theorem traceback_cells_record_first_maximum_witness:
  "(\<exists>st. fillMatrix Main_py (init (flat_score 2 (- 1)) ''ACGT'' ''AGT'' (- 2) (- 1)) = Inr st \<and>
     terms_M st 2 3 2 = [2, 2, 2, 0] \<and> TM st ! 2 ! 3 = 0 \<and>
     first_at (terms_M st 2 3 2) (TM st ! 2 ! 3) \<and>
     first_at (terms_Ix Main_py st 2 3) (TIx st ! 2 ! 3) \<and>
     first_at (terms_Iy Main_py st 2 3) (TIy st ! 2 ! 3)) \<and>
   (\<exists>st. fillMatrix Main_py (init (flat_score (2 ^ 62) (- 1)) ''AA'' ''AA'' (- 2) (- 1)) = Inr st \<and>
     terms_M st 2 2 (2 ^ 62) = [- (2 ^ 63), 2 ^ 62, 2 ^ 62, 0] \<and>
     M st ! 2 ! 2 = 2 ^ 62 \<and> TM st ! 2 ! 2 = 1 \<and>
     first_at (terms_M st 2 2 (2 ^ 62)) (TM st ! 2 ! 2))"
proof (rule conjI)
  let ?r = "fillMatrix Main_py (init (flat_score 2 (- 1)) ''ACGT'' ''AGT'' (- 2) (- 1))"
  obtain st where st: "?r = Inr st"
    using flat_score_total[OF int64_penalties(1) int64_penalties(2)] by blast
  have "map_sum id (\<lambda>st. (terms_M st 2 3 2, TM st ! 2 ! 3)) ?r = Inr ([2, 2, 2, 0], 0)"
    by code_simp
  then have v: "terms_M st 2 3 2 = [2, 2, 2, 0]" "TM st ! 2 ! 3 = 0"
    unfolding st by simp_all
  have "(1::nat) \<le> 2" "(2::nat) \<le> length ''AGT''" "(1::nat) \<le> 3" "(3::nat) \<le> length ''ACGT''"
    by simp_all
  from traceback_cells_record_first_maximum[OF st this]
  obtain s where s: "flat_score 2 (- 1) (''ACGT'' ! (3 - 1)) (''AGT'' ! (2 - 1)) = Some s"
    and fa: "first_at (terms_M st 2 3 s) (TM st ! 2 ! 3)"
      "first_at (terms_Ix Main_py st 2 3) (TIx st ! 2 ! 3)"
      "first_at (terms_Iy Main_py st 2 3) (TIy st ! 2 ! 3)"
    by blast
  from s have "s = 2" by (simp add: flat_score_def)
  with fa v st
  show "\<exists>st. fillMatrix Main_py (init (flat_score 2 (- 1)) ''ACGT'' ''AGT'' (- 2) (- 1)) = Inr st \<and>
     terms_M st 2 3 2 = [2, 2, 2, 0] \<and> TM st ! 2 ! 3 = 0 \<and>
     first_at (terms_M st 2 3 2) (TM st ! 2 ! 3) \<and>
     first_at (terms_Ix Main_py st 2 3) (TIx st ! 2 ! 3) \<and>
     first_at (terms_Iy Main_py st 2 3) (TIy st ! 2 ! 3)"
    by blast
next
  let ?r = "fillMatrix Main_py (init (flat_score (2 ^ 62) (- 1)) ''AA'' ''AA'' (- 2) (- 1))"
  obtain st where st: "?r = Inr st"
    using flat_score_total[OF int64_penalties(1) int64_penalties(2)] by blast
  have "map_sum id (\<lambda>st. (terms_M st 2 2 (2 ^ 62), M st ! 2 ! 2, TM st ! 2 ! 2)) ?r
      = Inr ([- (2 ^ 63), 2 ^ 62, 2 ^ 62, 0], 2 ^ 62, 1)"
    by code_simp
  then have v: "terms_M st 2 2 (2 ^ 62) = [- (2 ^ 63), 2 ^ 62, 2 ^ 62, 0]"
    "M st ! 2 ! 2 = 2 ^ 62" "TM st ! 2 ! 2 = 1"
    unfolding st by simp_all
  have "(1::nat) \<le> 2" "(2::nat) \<le> length ''AA''" "(1::nat) \<le> 2" "(2::nat) \<le> length ''AA''"
    by simp_all
  from traceback_cells_record_first_maximum[OF st this]
  obtain s where s: "flat_score (2 ^ 62) (- 1) (''AA'' ! (2 - 1)) (''AA'' ! (2 - 1)) = Some s"
    and fa: "first_at (terms_M st 2 2 s) (TM st ! 2 ! 2)"
    by blast
  from s have "s = 2 ^ 62" by (simp add: flat_score_def)
  with fa v st
  show "\<exists>st. fillMatrix Main_py (init (flat_score (2 ^ 62) (- 1)) ''AA'' ''AA'' (- 2) (- 1)) = Inr st \<and>
     terms_M st 2 2 (2 ^ 62) = [- (2 ^ 63), 2 ^ 62, 2 ^ 62, 0] \<and>
     M st ! 2 ! 2 = 2 ^ 62 \<and> TM st ! 2 ! 2 = 1 \<and>
     first_at (terms_M st 2 2 (2 ^ 62)) (TM st ! 2 ! 2)"
    by blast
qed

text \<open>
  C5: after fillMatrix, every cell of M, Ix, Iy and F is at least 0, whatever the
  sequences, the score table and the penalties are (also positive ones).
\<close>

theorem score_frames_nonnegative:
  assumes "fillMatrix v (init sc s1 s2 og eg) = Inr st"
  shows "(\<forall>r\<in>set (M st). \<forall>x\<in>set r. 0 \<le> x) \<and> (\<forall>r\<in>set (Ix st). \<forall>x\<in>set r. 0 \<le> x) \<and>
         (\<forall>r\<in>set (Iy st). \<forall>x\<in>set r. 0 \<le> x) \<and> (\<forall>r\<in>set (F st). \<forall>x\<in>set r. 0 \<le> x)"
proof -
  note f = fillMatrix_filled(1)[OF assms]
  note len = filled_fields(4,5)[OF assms]
  have c: "0 \<le> M st ! i ! j \<and> 0 \<le> Ix st ! i ! j \<and> 0 \<le> Iy st ! i ! j \<and> 0 \<le> F st ! i ! j"
    if "i < Suc (length s2)" "j < Suc (length s1)" for i j
    using filled_nonneg[OF f, of i j] that len by simp
  show ?thesis
    by (intro conjI rect_cells[OF wf_rects(2)[OF assms]] rect_cells[OF wf_rects(3)[OF assms]]
          rect_cells[OF wf_rects(4)[OF assms]] rect_cells[OF wf_rects(1)[OF assms]])
       (simp_all add: c)
qed

theorem score_frames_nonnegative_witness:
  "\<exists>st. fillMatrix Main_py (init (flat_score 2 (- 1)) ''ACGT'' ''AGT'' (- 2) (- 1)) = Inr st \<and>
     (\<forall>r\<in>set (M st). \<forall>x\<in>set r. 0 \<le> x) \<and> (\<forall>r\<in>set (Ix st). \<forall>x\<in>set r. 0 \<le> x) \<and>
     (\<forall>r\<in>set (Iy st). \<forall>x\<in>set r. 0 \<le> x) \<and> (\<forall>r\<in>set (F st). \<forall>x\<in>set r. 0 \<le> x) \<and>
     M st ! 3 ! 4 = 4"
proof -
  obtain st where st: "fillMatrix Main_py (init (flat_score 2 (- 1)) ''ACGT'' ''AGT'' (- 2) (- 1)) = Inr st"
    using flat_score_total[OF int64_penalties(1) int64_penalties(2)] by blast
  have "map_sum id (\<lambda>st. M st ! 3 ! 4)
      (fillMatrix Main_py (init (flat_score 2 (- 1)) ''ACGT'' ''AGT'' (- 2) (- 1))) = Inr 4"
    by code_simp
  then have "M st ! 3 ! 4 = 4" unfolding st by simp
  with score_frames_nonnegative[OF st] st show ?thesis by blast
qed

text \<open>
  C6: after fillMatrix, at every coordinate of F, row 0 and column 0 included, the cell of
  F is the maximum of the cells of M, Ix and Iy, hence at least each of them.
\<close>

theorem F_is_the_cellwise_maximum:
  assumes "fillMatrix v (init sc s1 s2 og eg) = Inr st"
  shows "\<forall>i<length (F st). \<forall>j<length (F st ! i).
           F st ! i ! j = max (M st ! i ! j) (max (Ix st ! i ! j) (Iy st ! i ! j)) \<and>
           M st ! i ! j \<le> F st ! i ! j \<and> Ix st ! i ! j \<le> F st ! i ! j \<and>
           Iy st ! i ! j \<le> F st ! i ! j"
proof (intro allI impI)
  fix i j assume i: "i < length (F st)" and j: "j < length (F st ! i)"
  note f = fillMatrix_filled(1)[OF assms]
  have r: "rect (length (seq2 st)) (length (seq1 st)) (F st)"
    using filled_wf[OF f] by (simp add: wf_def)
  have "i < length (seq2 st)" using r i by (simp add: rect_def)
  moreover have "j < length (seq1 st)" using r i j by (auto simp: rect_def)
  ultimately have "F st ! i ! j = max (M st ! i ! j) (max (Ix st ! i ! j) (Iy st ! i ! j))"
    by (rule filled_F_max[OF f])
  then show "F st ! i ! j = max (M st ! i ! j) (max (Ix st ! i ! j) (Iy st ! i ! j)) \<and>
           M st ! i ! j \<le> F st ! i ! j \<and> Ix st ! i ! j \<le> F st ! i ! j \<and>
           Iy st ! i ! j \<le> F st ! i ! j"
    by (auto simp: max_def)
qed

theorem F_is_the_cellwise_maximum_witness:
  "\<exists>st. fillMatrix Main_py (init (flat_score 10 (- 100)) ''ACB'' ''ADB'' (- 1) (- 1)) = Inr st \<and>
     length (F st) = 4 \<and> length (F st ! 2) = 4 \<and>
     F st ! 2 ! 2 = max (M st ! 2 ! 2) (max (Ix st ! 2 ! 2) (Iy st ! 2 ! 2)) \<and>
     F st ! 0 ! 3 = max (M st ! 0 ! 3) (max (Ix st ! 0 ! 3) (Iy st ! 0 ! 3)) \<and>
     F st ! 2 ! 2 = 8 \<and> M st ! 2 ! 2 = 0"
proof -
  let ?r = "fillMatrix Main_py (init (flat_score 10 (- 100)) ''ACB'' ''ADB'' (- 1) (- 1))"
  obtain st where st: "?r = Inr st"
    using flat_score_total[OF int64_penalties(2) int64_penalties(2)] by blast
  have "map_sum id (\<lambda>st. (length (F st), length (F st ! 2), length (F st ! 0), F st ! 2 ! 2, M st ! 2 ! 2)) ?r
      = Inr (4, 4, 4, 8, 0)"
    by code_simp
  then have v: "length (F st) = 4" "length (F st ! 2) = 4" "length (F st ! 0) = 4"
    "F st ! 2 ! 2 = 8" "M st ! 2 ! 2 = 0"
    unfolding st by simp_all
  from F_is_the_cellwise_maximum[OF st] v show ?thesis using st by auto
qed

text \<open>
  C7, as stated: a non-empty sequence aligned with itself, a strictly positive score for
  every identical pair, scores of at most 0 for the other pairs and penalties of at most 0
  would give getMax = \<open>len(s) * matchScore\<close>. It does not when that product is no 64-bit
  value: "AA" against itself with the score \<open>2^62\<close> satisfies every condition, the sum
  \<open>2^62 + 2^62\<close> in cell (2, 2) wraps around to \<open>-2^63\<close>, and the best score is \<open>2^62\<close>, found
  at (1, 1), with the second A left in the context. And with a penalty below \<open>-2^63\<close> the
  first sum of a cell and the penalty raises OverflowError, so that there is no score.
\<close>

theorem self_alignment_wraps_around:
  "runSW Main_py (flat_score (2 ^ 62) (- 1)) ''AA'' ''AA'' (- 2) (- 1) =
     Some (Inr (2 ^ 62, \<lparr>matchStr1 = ''(A)A'', matchStr2 = ''(A)A'', matchLine = '' |  ''\<rparr>))
   \<and> (2::int) ^ 62 \<noteq> int (length ''AA'') * 2 ^ 62
   \<and> runSW Main_py (flat_score 2 (- 1)) ''A'' ''A'' (- (2 ^ 63) - 1) (- 1) = Some (Inl OverflowError)"
  by code_simp

text \<open>
  C7, amended: a sequence aligned with itself, when every symbol of it scores the same
  strictly positive \<open>ms\<close> against itself with \<open>len(s) * ms\<close> below \<open>2^63\<close>, every pair of
  different symbols of it has a 64-bit score of at most 0, and both penalties are 64-bit
  values of at most 0. Then fillMatrix returns, getMax is \<open>len(s) * ms\<close>, and the aligned
  region pairs every symbol of \<open>s\<close> with itself, a bar under each column: no column holds a
  gap. The display is the region between the two markers, with no context. This holds in
  main.py and in main_2.py, and also for the empty sequence.
\<close>

theorem self_alignment_scores_every_symbol:
  assumes "0 < ms" and "int (length s) * ms < 2 ^ 63"
    and "- (2 ^ 63) \<le> og" and "og \<le> 0" and "- (2 ^ 63) \<le> eg" and "eg \<le> 0"
    and "\<forall>a\<in>set s. sc a a = Some ms"
    and "\<forall>a\<in>set s. \<forall>b\<in>set s. a \<noteq> b \<longrightarrow> (\<exists>w. sc a b = Some w \<and> - (2 ^ 63) \<le> w \<and> w \<le> 0)"
  shows "\<exists>st. fillMatrix v (init sc s s og eg) = Inr st \<and>
     getMax st = Inr (int (length s) * ms) \<and>
     getMaxCoord st = Inr (length s, length s) \<and>
     aligned_region st =
       Some (Inr \<lparr>matchStr1 = s, matchStr2 = s, matchLine = replicate (length s) CHR ''|''\<rparr>) \<and>
     traceback st x y =
       Some (Inr \<lparr>matchStr1 = ''('' @ s @ '')'', matchStr2 = ''('' @ s @ '')'',
                   matchLine = '' '' @ replicate (length s) CHR ''|'' @ '' ''\<rparr>)"
proof -
  have sc: "self_scores sc s ms" using assms(1,2,7,8) by (simp add: self_scores_def)
  have og: "- (2 ^ 63) \<le> og \<and> og \<le> 0" and eg: "- (2 ^ 63) \<le> eg \<and> eg \<le> 0"
    using assms(3-6) by simp_all
  have r: "in_int64 og" "in_int64 eg" using assms(3-6) by (simp_all add: in_int64_def)
  from fillMatrix_total[OF self_scores_total[OF sc] r, of v]
  obtain st where fill: "fillMatrix v (init sc s s og eg) = Inr st" by blast
  note b = self_best[OF fill sc og eg]
  note t = self_traceback(1)[OF fill sc og eg] self_traceback(2)[OF fill sc og eg, of x y]
  show ?thesis using fill b t by blast
qed

theorem self_alignment_scores_every_symbol_witness:
  "runSW Main_py (flat_score 2 (- 1)) ''ACGT'' ''ACGT'' (- 2) (- 1) =
     Some (Inr (8, \<lparr>matchStr1 = ''(ACGT)'', matchStr2 = ''(ACGT)'', matchLine = '' |||| ''\<rparr>)) \<and>
   runSW_aligned Main_py (flat_score 2 (- 1)) ''ACGT'' ''ACGT'' (- 2) (- 1) =
     Some (Inr \<lparr>matchStr1 = ''ACGT'', matchStr2 = ''ACGT'', matchLine = ''||||''\<rparr>)"
proof -
  have h: "(0::int) < 2" "int (length ''ACGT'') * 2 < 2 ^ 63"
    "- (2 ^ 63) \<le> (- 2::int)" "(- 2::int) \<le> 0" "- (2 ^ 63) \<le> (- 1::int)" "(- 1::int) \<le> 0"
    "\<forall>a\<in>set ''ACGT''. flat_score 2 (- 1) a a = Some 2"
    "\<forall>a\<in>set ''ACGT''. \<forall>b\<in>set ''ACGT''. a \<noteq> b \<longrightarrow>
       (\<exists>w. flat_score 2 (- 1) a b = Some w \<and> - (2 ^ 63) \<le> w \<and> w \<le> 0)"
    by (simp_all add: flat_score_def)
  from self_alignment_scores_every_symbol[OF h, of Main_py 0 0]
  show ?thesis by (auto simp: runSW_def runSW_aligned_def)
qed

text \<open>
  C8: there is an input with non-positive penalties on which the best score of main.py,
  whose gap recurrences take the orthogonal gap matrix plus the opening penalty, differs
  from the best score of main_2.py, which has -1 in that place. "ACB" against "ADB" needs a
  gap in each direction next to each other to pair both A and B: main.py scores
  10 - 1 - 1 + 10, main_2.py only a single match.
\<close>

theorem orthogonal_gap_changes_best_score:
  "\<exists>sc s1 s2 og eg a b.
     og \<le> 0 \<and> eg \<le> 0 \<and>
     best_score Main_py sc s1 s2 og eg = Inr a \<and>
     best_score Main_2_py sc s1 s2 og eg = Inr b \<and> a \<noteq> b"
proof -
  have "(- 1 :: int) \<le> 0 \<and> (- 1 :: int) \<le> 0 \<and>
     best_score Main_py (flat_score 10 (- 100)) ''ACB'' ''ADB'' (- 1) (- 1) = Inr 18 \<and>
     best_score Main_2_py (flat_score 10 (- 100)) ''ACB'' ''ADB'' (- 1) (- 1) = Inr 10 \<and>
     (18 :: int) \<noteq> 10"
    using run_ACB_ADB_main run_ACB_ADB_main_2 by simp
  then show ?thesis by blast
qed

text \<open>
  C9: with both sequences of length 0 nothing raises: fillMatrix leaves the fresh object
  as it is, each of the seven frames is the single cell 0, getMax is 0, the aligned region
  is empty and the display is the two markers alone. With one sequence of length 0 and
  the other of any length the frames have one column (or one row) of zeros; fillMatrix,
  getMax and the aligned region are as above and traceback returns.
\<close>

theorem empty_sequences_are_degenerate:
  "fillMatrix v (init sc [] [] og eg) = Inr (init sc [] [] og eg) \<and>
   F (init sc [] [] og eg) = [[0]] \<and> M (init sc [] [] og eg) = [[0]] \<and>
   Ix (init sc [] [] og eg) = [[0]] \<and> Iy (init sc [] [] og eg) = [[0]] \<and>
   TM (init sc [] [] og eg) = [[0]] \<and> TIx (init sc [] [] og eg) = [[0]] \<and>
   TIy (init sc [] [] og eg) = [[0]] \<and>
   getMax (init sc [] [] og eg) = Inr 0 \<and>
   aligned_region (init sc [] [] og eg) = Some (Inr no_lines) \<and>
   traceback (init sc [] [] og eg) x y =
     Some (Inr \<lparr>matchStr1 = ''()'', matchStr2 = ''()'', matchLine = ''  ''\<rparr>) \<and>
   fillMatrix v (init sc [] s2 og eg) = Inr (init sc [] s2 og eg) \<and>
   getMax (init sc [] s2 og eg) = Inr 0 \<and>
   aligned_region (init sc [] s2 og eg) = Some (Inr no_lines) \<and>
   (\<exists>L. traceback (init sc [] s2 og eg) x y = Some (Inr L)) \<and>
   fillMatrix v (init sc s1 [] og eg) = Inr (init sc s1 [] og eg) \<and>
   getMax (init sc s1 [] og eg) = Inr 0 \<and>
   aligned_region (init sc s1 [] og eg) = Some (Inr no_lines) \<and>
   (\<exists>L. traceback (init sc s1 [] og eg) x y = Some (Inr L))"
proof -
  note a0 = fresh_aligned_region(1)[OF fillMatrix_empty_seq1[of v sc "[]" og eg]]
  note a1 = fresh_aligned_region(1)[OF fillMatrix_empty_seq1[of v sc s2 og eg]]
    fresh_aligned_region(2)[OF fillMatrix_empty_seq1[of v sc s2 og eg], of x y]
  note a2 = fresh_aligned_region(1)[OF fillMatrix_empty_seq2[of v sc s1 og eg]]
    fresh_aligned_region(2)[OF fillMatrix_empty_seq2[of v sc s1 og eg], of x y]
  show ?thesis
    using fillMatrix_empty_seq1[of v sc _ og eg] fillMatrix_empty_seq2[of v sc _ og eg]
      fresh_getMax[of sc _ _ og eg] empty_traceback[of sc og eg x y] a0 a1 a2
    by (simp add: init_frames)
qed

theorem empty_sequences_are_degenerate_witness:
  "runSW Main_py (\<lambda>a b. None) '''' '''' (- 2) (- 1) =
     Some (Inr (0, \<lparr>matchStr1 = ''()'', matchStr2 = ''()'', matchLine = ''  ''\<rparr>)) \<and>
   runSW_aligned Main_py (\<lambda>a b. None) '''' ''ACGT'' (- 2) (- 1) = Some (Inr no_lines)"
  using empty_sequences_are_degenerate[of Main_py "\<lambda>a b. None" "- 2" "- 1" 0 0 "''ACGT''" "[]"]
  by (simp add: runSW_def runSW_aligned_def)

text \<open>
  C10: on every filled matrix traceback returns, and its three lists do not depend on its
  two arguments: \<open>i = x; j = y\<close> is overwritten at once by \<open>i, j = self.getMaxCoord()\<close>.
\<close>

theorem traceback_result_independent_of_arguments:
  assumes "fillMatrix v (init sc s1 s2 og eg) = Inr st"
  shows "\<exists>L. traceback st x y = Some (Inr L) \<and> traceback st x' y' = Some (Inr L)"
proof -
  from traceback_total[OF fillMatrix_filled(1)[OF assms], of x y]
  obtain L where "traceback st x y = Some (Inr L)" by blast
  then show ?thesis using traceback_ignores_arguments[of st x y x' y'] by simp
qed

theorem traceback_result_independent_of_arguments_witness:
  "\<exists>st. fillMatrix Main_py (init (flat_score 2 (- 1)) ''ACGT'' ''AGT'' (- 2) (- 1)) = Inr st \<and>
     traceback st 0 0 =
       Some (Inr \<lparr>matchStr1 = ''AC(GT)'', matchStr2 = '' A(GT)'', matchLine = ''   || ''\<rparr>) \<and>
     traceback st 2 (- 7) =
       Some (Inr \<lparr>matchStr1 = ''AC(GT)'', matchStr2 = '' A(GT)'', matchLine = ''   || ''\<rparr>)"
proof -
  let ?r = "fillMatrix Main_py (init (flat_score 2 (- 1)) ''ACGT'' ''AGT'' (- 2) (- 1))"
  obtain st where st: "?r = Inr st" using flat_score_total[OF int64_penalties(1) int64_penalties(2)] by blast
  have "map_sum id (\<lambda>st. traceback st 0 0) ?r =
      Inr (Some (Inr \<lparr>matchStr1 = ''AC(GT)'', matchStr2 = '' A(GT)'', matchLine = ''   || ''\<rparr>))"
    by code_simp
  then have v: "traceback st 0 0 =
      Some (Inr \<lparr>matchStr1 = ''AC(GT)'', matchStr2 = '' A(GT)'', matchLine = ''   || ''\<rparr>)"
    unfolding st by simp
  from traceback_result_independent_of_arguments[OF st, of 0 0 2 "- 7"] v st
  show ?thesis by auto
qed

end
